theory Spec2Isabelle
  imports Main "HOL-Library.Sublist"
begin

section \<open>The shared globals of the forecast service\<close>

text \<open>
  The module \<^verbatim>\<open>time_series_forecast_service.py\<close> keeps three module-level globals:
  \<^verbatim>\<open>GPU_DEVICE_BUSY = False\<close>, \<^verbatim>\<open>GPU_QUEUE = []\<close> and \<^verbatim>\<open>GPU_QUEUE_ID = -1\<close>.
  Python integers are unbounded, so ticket identifiers are of type \<open>int\<close>.
\<close>

record gstate =
  GPU_DEVICE_BUSY :: bool
  GPU_QUEUE :: "int list"
  GPU_QUEUE_ID :: int

definition init_globals :: gstate where
  "init_globals = \<lparr>GPU_DEVICE_BUSY = False, GPU_QUEUE = [], GPU_QUEUE_ID = - 1\<rparr>"

text \<open>
  The exceptions that the modelled statements can raise: \<open>IndexError\<close> from
  \<^verbatim>\<open>GPU_QUEUE[0]\<close> on an empty list, \<open>ValueError\<close> from \<^verbatim>\<open>GPU_QUEUE.remove(x)\<close> when
  \<open>x\<close> is absent, \<open>KeyError\<close> from \<^verbatim>\<open>response["..."]\<close> on a missing key,
  \<open>TypeError\<close> from the constructor of \<^verbatim>\<open>Output\<close> on a value that does not fit its
  field, \<open>AttributeError\<close> from \<^verbatim>\<open>context.set_details\<close> on a value that is not a
  string, and \<open>ComputeError\<close> for any exception raised by the external collaborators
  called in lines 70--94 (the request object, \<^verbatim>\<open>Forecast\<close>, \<^verbatim>\<open>multiprocessing\<close>).
\<close>

datatype exn = IndexError | ValueError | KeyError | TypeError | AttributeError | ComputeError

subsection \<open>The four helper functions (lines 129--155)\<close>

text \<open>
  \<^verbatim>\<open>
  def get_gpu_queue_id():
      GPU_QUEUE_ID += 1
      GPU_QUEUE.append(GPU_QUEUE_ID)
      return GPU_QUEUE_ID
  \<close>
\<close>

definition get_gpu_queue_id :: "gstate \<Rightarrow> int \<times> gstate" where
  "get_gpu_queue_id g =
     (let g1 = g\<lparr>GPU_QUEUE_ID := GPU_QUEUE_ID g + 1\<rparr>;
          g2 = g1\<lparr>GPU_QUEUE := GPU_QUEUE g1 @ [GPU_QUEUE_ID g1]\<rparr>
      in (GPU_QUEUE_ID g2, g2))"

text \<open>
  \<^verbatim>\<open>
  def remove_from_queue(gpu_queue_id):
      GPU_QUEUE.remove(gpu_queue_id)
  \<close>
  \<^verbatim>\<open>list.remove\<close> deletes the first occurrence and raises \<^verbatim>\<open>ValueError\<close> when there
  is none; the exception leaves the globals as they were, so \<open>Inl\<close> carries no state.
\<close>

definition remove_from_queue :: "int \<Rightarrow> gstate \<Rightarrow> exn + gstate" where
  "remove_from_queue gpu_queue_id g =
     (if gpu_queue_id \<in> set (GPU_QUEUE g)
      then Inr (g\<lparr>GPU_QUEUE := remove1 gpu_queue_id (GPU_QUEUE g)\<rparr>)
      else Inl ValueError)"

text \<open>
  \<^verbatim>\<open>
  def acquire_gpu(gpu_queue_id):
      GPU_DEVICE_BUSY = True
  \<close>
\<close>

definition acquire_gpu :: "int \<Rightarrow> gstate \<Rightarrow> gstate" where
  "acquire_gpu gpu_queue_id g = g\<lparr>GPU_DEVICE_BUSY := True\<rparr>"

text \<open>
  \<^verbatim>\<open>
  def release_gpu(gpu_queue_id):
      remove_from_queue(gpu_queue_id)
      GPU_DEVICE_BUSY = False
  \<close>
  An exception of \<^verbatim>\<open>remove_from_queue\<close> propagates before the flag is written.
\<close>

definition release_gpu :: "int \<Rightarrow> gstate \<Rightarrow> exn + gstate" where
  "release_gpu gpu_queue_id g =
     (case remove_from_queue gpu_queue_id g of
        Inl e \<Rightarrow> Inl e
      | Inr g' \<Rightarrow> Inr (g'\<lparr>GPU_DEVICE_BUSY := False\<rparr>))"

text \<open>\<^verbatim>\<open>GPU_QUEUE[0]\<close>: the head of the queue, \<^verbatim>\<open>IndexError\<close> on the empty list.\<close>

definition queue_head :: "gstate \<Rightarrow> exn + int" where
  "queue_head g = (case GPU_QUEUE g of [] \<Rightarrow> Inl IndexError | h # _ \<Rightarrow> Inr h)"

text \<open>
  A sequence of \<open>n\<close> enqueue operations, one after the other, with the identifiers they
  return in order.
\<close>

fun enqueue_n :: "nat \<Rightarrow> gstate \<Rightarrow> int list \<times> gstate" where
  "enqueue_n 0 g = ([], g)"
| "enqueue_n (Suc n) g =
     (let (t, g1) = get_gpu_queue_id g;
          (ts, g2) = enqueue_n n g1
      in (t # ts, g2))"

section \<open>The forecast operation, one memory access at a time\<close>

text \<open>
  Values that cross the boundary to the external collaborators: the response of the
  isolated computation is a Python dictionary (or \<^verbatim>\<open>None\<close> when the child process left
  nothing in \<^verbatim>\<open>return_dict\<close>), here an association list read with \<open>map_of\<close>.
\<close>

datatype pyval = PyNone | PyStr string | PyInt int

type_synonym pydict = "(string \<times> pyval) list"

text \<open>
  What lines 70--96 yield for one call: an exception raised in the servicer itself, or
  the value of \<^verbatim>\<open>return_dict.get("response", None)\<close>.
\<close>

datatype computation = Raises | Returns "pydict option"

text \<open>
  The protobuf message \<^verbatim>\<open>Output\<close>; a field that the constructor call does not pass
  keeps its default, written \<open>None\<close>.
\<close>

record Output =
  last_sax_word :: "pyval option"
  forecast_sax_letter :: "pyval option"
  position_in_sax_interval :: "pyval option"

definition Output_default :: Output where
  "Output_default =
     \<lparr>last_sax_word = None, forecast_sax_letter = None, position_in_sax_interval = None\<rparr>"

definition Output_busy :: Output where
  "Output_busy =
     \<lparr>last_sax_word = Some (PyStr ''GPU Busy!''),
      forecast_sax_letter = Some (PyStr ''GPU Busy!''),
      position_in_sax_interval = Some (PyInt (- 1))\<rparr>"

definition Output_fail :: Output where
  "Output_fail =
     \<lparr>last_sax_word = Some (PyStr ''Fail''),
      forecast_sax_letter = Some (PyStr ''Fail''),
      position_in_sax_interval = Some (PyInt (- 1))\<rparr>"

text \<open>
  Modelled from the spec: the field types of the message \<^verbatim>\<open>Output\<close>, which the service
  imports from the generated module \<^verbatim>\<open>service_spec.time_series_forecast_pb2\<close>; section 6
  of the specification gives them as \<^verbatim>\<open>lastSaxWord:string\<close>,
  \<^verbatim>\<open>forecastSaxLetter:string\<close>, \<^verbatim>\<open>positionInSaxInterval:number\<close>. The constructor of a
  protobuf message raises \<^verbatim>\<open>TypeError\<close> for a keyword value that does not fit the type
  of its field, and treats the value \<^verbatim>\<open>None\<close> as a field that is not passed.
\<close>

definition fits_string :: "pyval \<Rightarrow> bool" where
  "fits_string v = (case v of PyInt n \<Rightarrow> False | _ \<Rightarrow> True)"

definition fits_number :: "pyval \<Rightarrow> bool" where
  "fits_number v = (case v of PyStr s \<Rightarrow> False | _ \<Rightarrow> True)"

definition field_value :: "pyval \<Rightarrow> pyval option" where
  "field_value v = (case v of PyNone \<Rightarrow> None | _ \<Rightarrow> Some v)"

definition Output_init :: "pyval \<Rightarrow> pyval \<Rightarrow> pyval \<Rightarrow> exn + Output" where
  "Output_init w l p =
     (if fits_string w \<and> fits_string l \<and> fits_number p
      then Inr \<lparr>last_sax_word = field_value w, forecast_sax_letter = field_value l,
                position_in_sax_interval = field_value p\<rparr>
      else Inl TypeError)"

text \<open>
  The gRPC context, as far as the code writes it; \<open>None\<close> is a field never set.
  \<^verbatim>\<open>context.set_details\<close> encodes its argument before it stores it, which raises
  \<^verbatim>\<open>AttributeError\<close> for Python's \<^verbatim>\<open>None\<close> and for any other value that is not a
  string; \<^verbatim>\<open>context.set_code\<close> stores its argument.
\<close>

datatype status_code = OK | CANCELLED | UNKNOWN | DEADLINE_EXCEEDED | INTERNAL | UNAVAILABLE

record rpc_context =
  details :: "pyval option"
  code :: "status_code option"

definition fresh_context :: rpc_context where
  "fresh_context = \<lparr>details = None, code = None\<rparr>"


definition set_details :: "pyval \<Rightarrow> rpc_context \<Rightarrow> exn + rpc_context" where
  "set_details m c =
     (case m of PyStr s \<Rightarrow> Inr (c\<lparr>details := Some (PyStr s)\<rparr>) | _ \<Rightarrow> Inl AttributeError)"

definition set_code :: "status_code \<Rightarrow> rpc_context \<Rightarrow> rpc_context" where
  "set_code sc c = c\<lparr>code := Some sc\<rparr>"

text \<open>
  The program points of one call of \<^verbatim>\<open>ForecastServicer.forecast\<close>, named by the source
  line about to run. The threads of the server share the globals without any lock, and
  the interpreter may switch threads between any two accesses to them, so a line that
  accesses the globals twice has two program points:

  \<^item> \<open>L132\<close> and \<open>L132s\<close>: \<^verbatim>\<open>GPU_QUEUE_ID += 1\<close> loads the counter and then stores the
    loaded value plus one;
  \<^item> \<open>L133\<close> and \<open>L133a\<close>: \<^verbatim>\<open>GPU_QUEUE.append(GPU_QUEUE_ID)\<close> loads the counter and then
    appends the loaded value;
  \<^item> \<open>L135\<close>: \<^verbatim>\<open>return GPU_QUEUE_ID\<close> loads the counter, which line 52 assigns to
    \<^verbatim>\<open>gpu_queue_id\<close>;
  \<^item> \<open>L56\<close> and \<open>L56h\<close>: the loop test reads the flag and then, when the flag is false,
    the head of the queue;
  \<^item> \<open>L152\<close>, \<open>L153\<close>: the two statements of \<^verbatim>\<open>release_gpu\<close> called from line 113,
    \<open>H152\<close>, \<open>H153\<close> the same two called from the handler (line 121).

  \<open>Returned\<close> and \<open>Propagated\<close> are the two ways the call ends: with a response, or with
  an exception that leaves the handler.
\<close>

datatype pc =
    L132 | L132s | L133 | L133a | L135
  | L56 | L56h | L57 | L67
  | L70 | L97 | L104
  | L152 | L153 | L114
  | L120 | H152 | H153 | L123 | L124
  | Returned Output
  | Propagated exn

text \<open>
  The locals of one call; \<open>loaded\<close> is the value of the counter that lines 132 and 133
  have loaded and not yet used.
\<close>

record frame =
  pc :: pc
  gpu_queue_id :: int
  count :: int
  loaded :: int
  response :: "pydict option"
  grpc_context :: rpc_context
  computation :: computation

definition new_call :: "computation \<Rightarrow> frame" where
  "new_call c =
     \<lparr>pc = L132, gpu_queue_id = 0, count = 0, loaded = 0, response = None,
      grpc_context = fresh_context, computation = c\<rparr>"

text \<open>
  Lines 97--98: \<^verbatim>\<open>if not response or "error" in response\<close> and
  \<^verbatim>\<open>error_msg = response.get("error", None) if response else None\<close>. The result is the
  value of \<^verbatim>\<open>error_msg\<close> when the test holds, \<open>None\<close> when it does not.
\<close>

definition error_msg :: "pydict option \<Rightarrow> pyval option" where
  "error_msg r =
     (case r of
        None \<Rightarrow> Some PyNone
      | Some d \<Rightarrow>
          if d = [] then Some PyNone
          else (case map_of d ''error'' of Some m \<Rightarrow> Some m | None \<Rightarrow> None))"

text \<open>
  Lines 108--110 and 114--116 read three keys of the response; a missing key raises
  \<^verbatim>\<open>KeyError\<close> (and a response that is \<^verbatim>\<open>None\<close>, which the test of line 97 keeps
  away from these lines, \<^verbatim>\<open>TypeError\<close>). Lines 114--116 pass the three values to the
  constructor of \<^verbatim>\<open>Output\<close>.
\<close>

definition result_keys :: "pydict option \<Rightarrow> exn + pyval \<times> pyval \<times> pyval" where
  "result_keys r =
     (case r of
        None \<Rightarrow> Inl TypeError
      | Some d \<Rightarrow>
          (case (map_of d ''last_sax_word'', map_of d ''forecast_sax_letter'',
                 map_of d ''position_in_sax_interval'') of
             (Some w, Some l, Some p) \<Rightarrow> Inr (w, l, p)
           | _ \<Rightarrow> Inl KeyError))"

definition Output_new :: "pydict option \<Rightarrow> exn + Output" where
  "Output_new r =
     (case result_keys r of
        Inl e \<Rightarrow> Inl e
      | Inr (w, l, p) \<Rightarrow> Output_init w l p)"

text \<open>
  One step of one call. The \<^verbatim>\<open>try\<close> block spans lines 54--116: an exception raised
  there continues at the handler (line 120); an exception raised inside the handler
  leaves the call.

  \<^item> \<open>L57\<close>: the loop body, lines 57--64. Line 59 reads \<^verbatim>\<open>GPU_QUEUE[0]\<close> every 60th
    poll. Lines 61--64 build an \<^verbatim>\<open>Output\<close> object when \<^verbatim>\<open>count > 60 * 60\<close> and drop it:
    the statement is an expression, not a \<^verbatim>\<open>return\<close>.
  \<^item> \<open>L97\<close>: lines 97--102. When the test holds, \<^verbatim>\<open>context.set_details(error_msg)\<close>
    runs before \<^verbatim>\<open>context.set_code\<close> and \<^verbatim>\<open>return Output()\<close>; its exception is raised
    inside the \<^verbatim>\<open>try\<close> block.
  \<^item> \<open>L114\<close>: lines 114--116, after \<^verbatim>\<open>release_gpu\<close> and still inside the \<^verbatim>\<open>try\<close>
    block.
\<close>

definition exec :: "frame \<Rightarrow> gstate \<Rightarrow> frame \<times> gstate" where
  "exec f g =
     (case pc f of
        L132 \<Rightarrow> (f\<lparr>pc := L132s, loaded := GPU_QUEUE_ID g\<rparr>, g)
      | L132s \<Rightarrow> (f\<lparr>pc := L133\<rparr>, g\<lparr>GPU_QUEUE_ID := loaded f + 1\<rparr>)
      | L133 \<Rightarrow> (f\<lparr>pc := L133a, loaded := GPU_QUEUE_ID g\<rparr>, g)
      | L133a \<Rightarrow> (f\<lparr>pc := L135\<rparr>, g\<lparr>GPU_QUEUE := GPU_QUEUE g @ [loaded f]\<rparr>)
      | L135 \<Rightarrow> (f\<lparr>pc := L56, gpu_queue_id := GPU_QUEUE_ID g, count := 0\<rparr>, g)
      | L56 \<Rightarrow> (if GPU_DEVICE_BUSY g then (f\<lparr>pc := L57\<rparr>, g) else (f\<lparr>pc := L56h\<rparr>, g))
      | L56h \<Rightarrow>
          (case queue_head g of
             Inl e \<Rightarrow> (f\<lparr>pc := L120\<rparr>, g)
           | Inr h \<Rightarrow> if h \<noteq> gpu_queue_id f then (f\<lparr>pc := L57\<rparr>, g)
                      else (f\<lparr>pc := L67\<rparr>, g))
      | L57 \<Rightarrow>
          (if count f mod 60 = 0 \<and> queue_head g = Inl IndexError then (f\<lparr>pc := L120\<rparr>, g)
           else
             (let f1 = f\<lparr>count := count f + 1\<rparr>;
                  dropped = (if count f1 > 60 * 60 then Some Output_busy else None)
              in (f1\<lparr>pc := L56\<rparr>, g)))
      | L67 \<Rightarrow> (f\<lparr>pc := L70\<rparr>, acquire_gpu (gpu_queue_id f) g)
      | L70 \<Rightarrow>
          (case computation f of
             Raises \<Rightarrow> (f\<lparr>pc := L120\<rparr>, g)
           | Returns r \<Rightarrow> (f\<lparr>pc := L97, response := r\<rparr>, g))
      | L97 \<Rightarrow>
          (case error_msg (response f) of
             None \<Rightarrow> (f\<lparr>pc := L104\<rparr>, g)
           | Some m \<Rightarrow>
               (case set_details m (grpc_context f) of
                  Inl e \<Rightarrow> (f\<lparr>pc := L120\<rparr>, g)
                | Inr c \<Rightarrow>
                    (f\<lparr>grpc_context := set_code INTERNAL c, pc := Returned Output_default\<rparr>, g)))
      | L104 \<Rightarrow>
          (case result_keys (response f) of
             Inl e \<Rightarrow> (f\<lparr>pc := L120\<rparr>, g)
           | Inr v \<Rightarrow> (f\<lparr>pc := L152\<rparr>, g))
      | L152 \<Rightarrow>
          (case remove_from_queue (gpu_queue_id f) g of
             Inl e \<Rightarrow> (f\<lparr>pc := L120\<rparr>, g)
           | Inr g' \<Rightarrow> (f\<lparr>pc := L153\<rparr>, g'))
      | L153 \<Rightarrow> (f\<lparr>pc := L114\<rparr>, g\<lparr>GPU_DEVICE_BUSY := False\<rparr>)
      | L114 \<Rightarrow>
          (case Output_new (response f) of
             Inl e \<Rightarrow> (f\<lparr>pc := L120\<rparr>, g)
           | Inr out \<Rightarrow> (f\<lparr>pc := Returned out\<rparr>, g))
      | L120 \<Rightarrow>
          (case queue_head g of
             Inl e \<Rightarrow> (f\<lparr>pc := Propagated e\<rparr>, g)
           | Inr h \<Rightarrow> if gpu_queue_id f = h then (f\<lparr>pc := H152\<rparr>, g)
                      else (f\<lparr>pc := L123\<rparr>, g))
      | H152 \<Rightarrow>
          (case remove_from_queue (gpu_queue_id f) g of
             Inl e \<Rightarrow> (f\<lparr>pc := Propagated e\<rparr>, g)
           | Inr g' \<Rightarrow> (f\<lparr>pc := H153\<rparr>, g'))
      | H153 \<Rightarrow> (f\<lparr>pc := L124\<rparr>, g\<lparr>GPU_DEVICE_BUSY := False\<rparr>)
      | L123 \<Rightarrow>
          (case remove_from_queue (gpu_queue_id f) g of
             Inl e \<Rightarrow> (f\<lparr>pc := Propagated e\<rparr>, g)
           | Inr g' \<Rightarrow> (f\<lparr>pc := L124\<rparr>, g'))
      | L124 \<Rightarrow> (f\<lparr>pc := Returned Output_fail\<rparr>, g)
      | Returned out \<Rightarrow> (f, g)
      | Propagated e \<Rightarrow> (f, g))"

subsection \<open>Calls running side by side\<close>

text \<open>
  The server hands calls to a pool of \<^verbatim>\<open>max_workers\<close> threads, all sharing the
  globals. A system state is the globals and one frame per call; a schedule is the list
  of call indices in the order in which they run one step each.
\<close>

record system =
  globals :: gstate
  calls :: "frame list"

definition init_system :: "computation list \<Rightarrow> system" where
  "init_system cs = \<lparr>globals = init_globals, calls = map new_call cs\<rparr>"

definition step :: "nat \<Rightarrow> system \<Rightarrow> system" where
  "step i s =
     (if i < length (calls s)
      then (let (f, g) = exec (calls s ! i) (globals s)
            in \<lparr>globals = g, calls = (calls s)[i := f]\<rparr>)
      else s)"

primrec run :: "nat list \<Rightarrow> system \<Rightarrow> system" where
  "run [] s = s"
| "run (i # sched) s = run sched (step i s)"

subsection \<open>One call on its own\<close>

text \<open>
  A call that runs with no other call in flight needs at most sixteen steps to end: the
  five of \<^verbatim>\<open>get_gpu_queue_id\<close>, then lines 56 (two reads), 67, 70, 97, 104, and then
  either 152, 153, 114 and, when line 114 raises, 120 and the exception of the handler, or
  the handler's 120, 152, 153, 124. Steps of a call that has ended change nothing.
\<close>

definition alone :: "nat list" where
  "alone = [0, 0, 0, 0, 0, 0, 0, 0, 0, 0, 0, 0, 0, 0, 0, 0]"

definition forecast_alone :: "computation \<Rightarrow> gstate \<Rightarrow> system" where
  "forecast_alone c g = run alone \<lparr>globals = g, calls = [new_call c]\<rparr>"

text \<open>What the caller of the first call sees: how the call ended and the gRPC context.\<close>

definition reply :: "system \<Rightarrow> pc \<times> rpc_context" where
  "reply s = (case calls s of [] \<Rightarrow> (L132, fresh_context) | f # _ \<Rightarrow> (pc f, grpc_context f))"


text \<open>
  Two calls: call 0 has acquired the device and is inside its computation (line 70
  onwards, \<^verbatim>\<open>p.join()\<close> not yet back); call 1 holds ticket 1 and is in its wait loop at
  program point \<open>p\<close> with \<open>c\<close> polls counted.
\<close>

definition polling :: "int \<Rightarrow> pc \<Rightarrow> system" where
  "polling c p =
     \<lparr>globals = \<lparr>GPU_DEVICE_BUSY = True, GPU_QUEUE = [0, 1], GPU_QUEUE_ID = 1\<rparr>,
      calls = [\<lparr>pc = L70, gpu_queue_id = 0, count = 0, loaded = 0, response = None,
                grpc_context = fresh_context, computation = Returns None\<rparr>,
               \<lparr>pc = p, gpu_queue_id = 1, count = c, loaded = 1, response = None,
                grpc_context = fresh_context, computation = Returns None\<rparr>]\<rparr>"

subsection \<open>Executions and what is observed along them\<close>

text \<open>
  \<open>fresh i s\<close> says that call \<open>i\<close> has not started; \<open>enqueue_atomic sched s\<close> says that
  in the schedule every call runs the five steps of \<^verbatim>\<open>get_gpu_queue_id\<close> (lines 132,
  133, 135) back to back, with no step of another call in between.
\<close>

definition fresh :: "nat \<Rightarrow> system \<Rightarrow> bool" where
  "fresh i s = (i < length (calls s) \<and> pc (calls s ! i) = L132)"

fun enqueue_atomic :: "nat list \<Rightarrow> system \<Rightarrow> bool" where
  "enqueue_atomic [] s = True"
| "enqueue_atomic (i # sched) s =
     (if fresh i s
      then take 4 sched = [i, i, i, i]
           \<and> enqueue_atomic (drop 4 sched) (run [i, i, i, i, i] s)
      else enqueue_atomic sched (step i s))"

text \<open>
  \<open>testing i s\<close> says that call \<open>i\<close> is about to read the flag in its loop test and
  will find it false; \<open>uninterrupted sched s\<close> says that in the schedule, in addition, no
  step of another call runs between that read and the read of the queue head that follows
  it.
\<close>

definition testing :: "nat \<Rightarrow> system \<Rightarrow> bool" where
  "testing i s =
     (i < length (calls s) \<and> pc (calls s ! i) = L56 \<and> \<not> GPU_DEVICE_BUSY (globals s))"

fun uninterrupted :: "nat list \<Rightarrow> system \<Rightarrow> bool" where
  "uninterrupted [] s = True"
| "uninterrupted (i # sched) s =
     (if fresh i s
      then take 4 sched = [i, i, i, i]
           \<and> uninterrupted (drop 4 sched) (run [i, i, i, i, i] s)
      else if testing i s
      then take 1 sched = [i] \<and> uninterrupted (drop 1 sched) (run [i, i] s)
      else uninterrupted sched (step i s))"

text \<open>
  The order in which the calls append their ticket to the queue (line 133), and the
  acquisitions (line 67) in order: the call, its ticket and the queue at that moment.
\<close>

primrec enqueue_order :: "nat list \<Rightarrow> system \<Rightarrow> nat list" where
  "enqueue_order [] s = []"
| "enqueue_order (i # sched) s =
     (if i < length (calls s) \<and> pc (calls s ! i) = L133a then [i] else [])
     @ enqueue_order sched (step i s)"

primrec acquisitions :: "nat list \<Rightarrow> system \<Rightarrow> (nat \<times> int \<times> int list) list" where
  "acquisitions [] s = []"
| "acquisitions (i # sched) s =
     (if i < length (calls s) \<and> pc (calls s ! i) = L67
      then [(i, gpu_queue_id (calls s ! i), GPU_QUEUE (globals s))] else [])
     @ acquisitions sched (step i s)"

text \<open>
  An acquisition respects the queue when the acquiring ticket is the head of the queue and
  every ticket behind it is greater.
\<close>

fun at_head :: "nat \<times> int \<times> int list \<Rightarrow> bool" where
  "at_head (i, t, []) = False"
| "at_head (i, t, h # r) = (h = t \<and> list_all (\<lambda>t'. t < t') r)"

definition ticket :: "system \<Rightarrow> nat \<Rightarrow> int" where
  "ticket s i = gpu_queue_id (calls s ! i)"

text \<open>
  The steps that read \<^verbatim>\<open>GPU_QUEUE[0]\<close> (the loop test of line 56, the log message of
  line 59, the handler's test of line 120) and those that call \<^verbatim>\<open>GPU_QUEUE.remove\<close>
  (line 152 from lines 113 and 121, and line 123): \<open>access_ok\<close> says that the call's own
  ticket is in the queue when such a step runs, \<open>accesses_ok\<close> that this holds at every
  step of a schedule.
\<close>

definition access_ok :: "frame \<Rightarrow> gstate \<Rightarrow> bool" where
  "access_ok f g =
     (if pc f \<in> {L56h, L57, L120, L152, H152, L123}
      then gpu_queue_id f \<in> set (GPU_QUEUE g) else True)"

primrec accesses_ok :: "nat list \<Rightarrow> system \<Rightarrow> bool" where
  "accesses_ok [] s = True"
| "accesses_ok (i # sched) s =
     ((if i < length (calls s) then access_ok (calls s ! i) (globals s) else True)
      \<and> accesses_ok sched (step i s))"

text \<open>
  A computation whose result, when lines 114--116 are reached, is accepted by the
  constructor of \<^verbatim>\<open>Output\<close>: it raises, or its response lacks a result key (line 108
  raises before the release), or the three values fit their fields.
\<close>

definition accepted :: "computation \<Rightarrow> bool" where
  "accepted c =
     (case c of
        Raises \<Rightarrow> True
      | Returns r \<Rightarrow>
          (case result_keys r of
             Inl e \<Rightarrow> True
           | Inr (w, l, p) \<Rightarrow> fits_string w \<and> fits_string l \<and> fits_number p))"

text \<open>A call that has ended with an exception leaving the handler.\<close>

definition raised :: "frame \<Rightarrow> bool" where
  "raised f = (case pc f of Propagated e \<Rightarrow> True | _ \<Rightarrow> False)"

text \<open>
  A response whose first result value is a number where the field of \<^verbatim>\<open>Output\<close> is a
  string.
\<close>

definition mistyped :: pydict where
  "mistyped =
     [(''last_sax_word'', PyInt 7), (''forecast_sax_letter'', PyStr ''a''),
      (''position_in_sax_interval'', PyInt 1)]"

text \<open>
  A call holds the device from the step after \<^verbatim>\<open>acquire_gpu\<close> (line 70) until its
  \<^verbatim>\<open>release_gpu\<close> has reset the flag (line 153), on the normal path or in the handler
  (line 121). At line 120 the handler has still to find out whether the call holds the
  device; its test is whether the ticket is the head of the queue. Between the two
  statements of \<^verbatim>\<open>release_gpu\<close> the holder's ticket has left the queue and the flag is
  still set.
\<close>

definition holds :: "gstate \<Rightarrow> frame \<Rightarrow> bool" where
  "holds g f =
     (pc f \<in> {L70, L97, L104, L152, L153, H152, H153}
      \<or> pc f = L120 \<and> queue_head g = Inr (gpu_queue_id f))"

definition holders :: "system \<Rightarrow> frame list" where
  "holders s = filter (holds (globals s)) (calls s)"

definition at_head_or_releasing :: "gstate \<Rightarrow> frame \<Rightarrow> bool" where
  "at_head_or_releasing g f =
     (pc f = L153 \<or> pc f = H153 \<or> queue_head g = Inr (gpu_queue_id f))"

text \<open>
  A computation that ends in the failure return of lines 97--102: its response has an
  \<^verbatim>\<open>"error"\<close> entry that is a string.
\<close>

definition leaks :: "computation \<Rightarrow> bool" where
  "leaks c =
     (case c of
        Raises \<Rightarrow> False
      | Returns r \<Rightarrow> (case error_msg r of Some (PyStr m) \<Rightarrow> True | _ \<Rightarrow> False))"

text \<open>
  Two calls whose computation raises, and schedules for them.

  \<^item> \<open>orderly\<close>: call 0 enqueues, then call 1; call 0 acquires, fails in the computation
    and releases in the handler, then call 1 acquires.
  \<^item> \<open>lost_update\<close>: call 0 loads the counter (line 132), call 1 enqueues completely, and
    call 0 then stores and goes on.
  \<^item> \<open>overtaking\<close>: call 0 runs line 132, call 1 enqueues completely, and only then call 0
    runs lines 133 and 135; call 0 then runs to its end and call 1 acquires.
  \<^item> \<open>both_pass\<close>: the two enqueue operations interleave as in \<open>overtaking\<close>; then
    each call runs its loop test, both reads back to back, before either acquires.
  \<^item> \<open>torn_test\<close>: both calls enqueue in turn; call 1 reads the flag (false) in its loop
    test; call 0 passes its loop test, acquires, fails and removes its ticket in the
    handler; call 1 then reads the queue head, finds its own ticket and acquires.
  \<^item> \<open>shared_ticket\<close>: call 0 runs line 132 and the load of line 133, call 1 runs
    lines 132 and 133, call 0 appends and both read the counter: both hold ticket 1 and
    the queue is \<open>[1, 0]\<close>. Call 0 acquires, fails and removes ticket 1 in the handler;
    call 1, which has read the queue head before that, acquires, fails and finds ticket 0
    at the head of the queue.
\<close>

definition two_calls :: system where
  "two_calls = init_system [Raises, Raises]"

definition orderly :: "nat list" where
  "orderly = [0, 0, 0, 0, 0, 1, 1, 1, 1, 1, 0, 0, 0, 1, 0, 0, 0, 0, 0, 0, 1, 1, 1, 1, 1]"

definition lost_update :: "nat list" where
  "lost_update = [0, 1, 1, 1, 1, 1, 0, 0, 0, 0]"

definition overtaking :: "nat list" where
  "overtaking = [0, 0, 1, 1, 1, 1, 1, 0, 0, 0, 0, 0, 0, 0, 0, 0, 0, 0, 1, 1, 1]"

definition torn_test :: "nat list" where
  "torn_test = [0, 0, 0, 0, 0, 1, 1, 1, 1, 1, 1, 0, 0, 0, 0, 0, 0, 1, 1]"

definition both_pass :: "nat list" where
  "both_pass = [0, 0, 1, 1, 1, 1, 1, 0, 0, 0, 0, 0, 1, 1, 0, 1]"

definition shared_ticket :: "nat list" where
  "shared_ticket = [0, 0, 0, 1, 1, 1, 1, 0, 0, 0, 0, 1, 1, 0, 0, 0, 1, 0, 1, 1, 1, 1]"

subsection \<open>Invariants of the executions with atomic enqueue\<close>

text \<open>
  The program points fall into phases: before line 132, inside \<^verbatim>\<open>get_gpu_queue_id\<close>,
  in the wait loop, between the two reads of the loop test, past the loop test, holding
  the ticket at the head of the queue, at the handler's test, between the two statements
  of \<^verbatim>\<open>release_gpu\<close>, after the release, and at the end.
\<close>

datatype phase =
  Fresh | Enqueuing | Waiting | Testing | Passed | Holding | Handling | Releasing | Released
  | Finished

fun phase_of :: "pc \<Rightarrow> phase" where
  "phase_of L132 = Fresh"
| "phase_of L132s = Enqueuing"
| "phase_of L133 = Enqueuing"
| "phase_of L133a = Enqueuing"
| "phase_of L135 = Enqueuing"
| "phase_of L56 = Waiting"
| "phase_of L57 = Waiting"
| "phase_of L56h = Testing"
| "phase_of L67 = Passed"
| "phase_of L70 = Holding"
| "phase_of L97 = Holding"
| "phase_of L104 = Holding"
| "phase_of L152 = Holding"
| "phase_of H152 = Holding"
| "phase_of L120 = Handling"
| "phase_of L153 = Releasing"
| "phase_of H153 = Releasing"
| "phase_of L114 = Released"
| "phase_of L123 = Released"
| "phase_of L124 = Finished"
| "phase_of (Returned out) = Finished"
| "phase_of (Propagated e) = Finished"

text \<open>
  What the invariant says of one frame: an enqueued call has a ticket no greater than the
  counter; the ticket is in the queue until the call removes it, at its head once the call
  has passed the loop test, and not in the queue after the release; the handler starts
  either with the ticket at the head or, when the exception was raised after the release,
  with the ticket not in the queue.
\<close>

definition frame_ok :: "gstate \<Rightarrow> frame \<Rightarrow> bool" where
  "frame_ok g f \<longleftrightarrow>
     phase_of (pc f) \<noteq> Enqueuing
     \<and> (phase_of (pc f) \<noteq> Fresh \<longrightarrow> gpu_queue_id f \<le> GPU_QUEUE_ID g)
     \<and> (phase_of (pc f) \<in> {Waiting, Testing, Passed, Holding} \<longrightarrow>
          gpu_queue_id f \<in> set (GPU_QUEUE g))
     \<and> (phase_of (pc f) \<in> {Passed, Holding} \<longrightarrow> queue_head g = Inr (gpu_queue_id f))
     \<and> (phase_of (pc f) = Handling \<longrightarrow>
          queue_head g = Inr (gpu_queue_id f) \<or> gpu_queue_id f \<notin> set (GPU_QUEUE g))
     \<and> (phase_of (pc f) \<in> {Releasing, Released} \<longrightarrow> gpu_queue_id f \<notin> set (GPU_QUEUE g))"

text \<open>
  The invariant: the queue is strictly increasing and bounded by the counter, every frame
  is as above, and enqueued calls have distinct tickets.
\<close>

definition inv :: "system \<Rightarrow> bool" where
  "inv s \<longleftrightarrow>
     sorted_wrt (<) (GPU_QUEUE (globals s))
   \<and> (\<forall>t \<in> set (GPU_QUEUE (globals s)). t \<le> GPU_QUEUE_ID (globals s))
   \<and> (\<forall>i < length (calls s). frame_ok (globals s) (calls s ! i))
   \<and> (\<forall>i < length (calls s). \<forall>j < length (calls s).
        phase_of (pc (calls s ! i)) \<noteq> Fresh \<and> phase_of (pc (calls s ! j)) \<noteq> Fresh
        \<and> gpu_queue_id (calls s ! i) = gpu_queue_id (calls s ! j) \<longrightarrow> i = j)"

text \<open>
  The history of an execution, related to its last state: \<open>E\<close> lists the calls in the
  order of their enqueue, \<open>A\<close> in the order of their acquisition; the tickets along \<open>E\<close>
  are \<open>0, 1, ...\<close> up to the counter, tickets increase along \<open>A\<close>, and every call still
  waiting has a ticket greater than all in \<open>A\<close>.
\<close>

definition hist :: "system \<Rightarrow> nat list \<Rightarrow> nat list \<Rightarrow> bool" where
  "hist s E A \<longleftrightarrow>
     (\<forall>i. i \<in> set E \<longleftrightarrow> i < length (calls s) \<and> phase_of (pc (calls s ! i)) \<noteq> Fresh)
   \<and> map (ticket s) E = [0 .. GPU_QUEUE_ID (globals s)]
   \<and> - 1 \<le> GPU_QUEUE_ID (globals s)
   \<and> sorted_wrt (<) (map (ticket s) E)
   \<and> sorted_wrt (<) (map (ticket s) A)
   \<and> set A \<subseteq> set E
   \<and> (\<forall>a \<in> set A. \<forall>j < length (calls s).
        phase_of (pc (calls s ! j)) \<in> {Waiting, Testing, Passed}
        \<longrightarrow> ticket s a < ticket s j)"

text \<open>
  From line 97 to line 114 the local \<^verbatim>\<open>response\<close> is what the computation returned, and
  past line 104 it has the three result keys.
\<close>

definition response_ok :: "frame \<Rightarrow> bool" where
  "response_ok f \<longleftrightarrow>
     (pc f \<in> {L97, L104, L152, L153, L114} \<longrightarrow> computation f = Returns (response f))
     \<and> (pc f \<in> {L104, L152, L153, L114} \<longrightarrow> error_msg (response f) = None)
     \<and> (pc f \<in> {L152, L153, L114} \<longrightarrow> (\<exists>v. result_keys (response f) = Inr v))"

text \<open>
  When every result is accepted by the constructor of \<^verbatim>\<open>Output\<close>, no exception is
  raised after the release: the handler starts with the ticket at the head of the queue,
  line 123 is not reached and no exception leaves the handler.
\<close>

definition typed_frame :: "gstate \<Rightarrow> frame \<Rightarrow> bool" where
  "typed_frame g f \<longleftrightarrow>
     accepted (computation f) \<and> response_ok f
     \<and> (pc f = L120 \<longrightarrow> queue_head g = Inr (gpu_queue_id f))
     \<and> pc f \<noteq> L123 \<and> (\<forall>e. pc f \<noteq> Propagated e)"

definition typed :: "system \<Rightarrow> bool" where
  "typed s \<longleftrightarrow> (\<forall>i < length (calls s). typed_frame (globals s) (calls s ! i))"


subsection \<open>Invariants of the executions with atomic enqueue and atomic loop test\<close>

text \<open>
  \<open>crit\<close>: the call is past the loop test and before the end of its release. The
  invariant: no call is between the two reads of its loop test, at most one call is in
  \<open>crit\<close>, the flag is set while a call holds the device, no call takes the failure
  return of lines 97--102, and the flag is set only while some call holds the device.
\<close>

definition crit :: "gstate \<Rightarrow> frame \<Rightarrow> bool" where
  "crit g f = (pc f = L67 \<or> holds g f)"

definition excl :: "system \<Rightarrow> bool" where
  "excl s \<longleftrightarrow>
     (\<forall>i < length (calls s). pc (calls s ! i) \<noteq> L56h)
   \<and> (\<forall>i < length (calls s). \<forall>j < length (calls s).
        crit (globals s) (calls s ! i) \<and> crit (globals s) (calls s ! j) \<longrightarrow> i = j)
   \<and> (\<forall>i < length (calls s). holds (globals s) (calls s ! i) \<longrightarrow> GPU_DEVICE_BUSY (globals s))
   \<and> (\<forall>i < length (calls s). \<not> leaks (computation (calls s ! i)) \<and> response_ok (calls s ! i))
   \<and> (GPU_DEVICE_BUSY (globals s) \<longrightarrow> (\<exists>i < length (calls s). holds (globals s) (calls s ! i)))"

section \<open>Properties\<close>

subsection \<open>Evaluation\<close>

lemmas sys_simps = step_def exec_def init_system_def new_call_def init_globals_def
  fresh_context_def queue_head_def acquire_gpu_def remove_from_queue_def Let_def
  set_details_def set_code_def

lemma run_append: "run (xs @ ys) s = run ys (run xs s)"
  by (induction xs arbitrary: s) simp_all

subsection \<open>Resource lock\<close>

text \<open>
  Claim C3, as stated, fails: the second of two releases in succession raises
  \<^verbatim>\<open>ValueError\<close>, because \<^verbatim>\<open>release_gpu\<close> first removes the ticket from the queue and
  the first release has already removed it.
\<close>

theorem release_twice_counterexample:
  "release_gpu 0 \<lparr>GPU_DEVICE_BUSY = True, GPU_QUEUE = [0], GPU_QUEUE_ID = 0\<rparr> =
     Inr \<lparr>GPU_DEVICE_BUSY = False, GPU_QUEUE = [], GPU_QUEUE_ID = 0\<rparr>
   \<and> release_gpu 0 \<lparr>GPU_DEVICE_BUSY = False, GPU_QUEUE = [], GPU_QUEUE_ID = 0\<rparr> =
     Inl ValueError"
  by (simp add: release_gpu_def remove_from_queue_def)

text \<open>
  Claim C3, amended. For a ticket that is in the queue (a queue without duplicates),
  release raises no error, removes the ticket and leaves the state free, whatever the
  flag was before; a second release in succession raises \<^verbatim>\<open>ValueError\<close> and changes
  nothing, so the state is free after each of the two calls.
\<close>

theorem release_gpu_twice:
  assumes "t \<in> set (GPU_QUEUE g)" and "distinct (GPU_QUEUE g)"
  shows "release_gpu t g =
           Inr (g\<lparr>GPU_QUEUE := remove1 t (GPU_QUEUE g), GPU_DEVICE_BUSY := False\<rparr>)
       \<and> release_gpu t (g\<lparr>GPU_QUEUE := remove1 t (GPU_QUEUE g), GPU_DEVICE_BUSY := False\<rparr>) =
           Inl ValueError"
  using assms by (simp add: release_gpu_def remove_from_queue_def)

theorem release_gpu_twice_witness:
  "(1::int) \<in> set (GPU_QUEUE \<lparr>GPU_DEVICE_BUSY = False, GPU_QUEUE = [1, 2], GPU_QUEUE_ID = 2\<rparr>)
   \<and> distinct (GPU_QUEUE \<lparr>GPU_DEVICE_BUSY = False, GPU_QUEUE = [1, 2], GPU_QUEUE_ID = 2\<rparr>)
   \<and> release_gpu 1 \<lparr>GPU_DEVICE_BUSY = False, GPU_QUEUE = [1, 2], GPU_QUEUE_ID = 2\<rparr> =
       Inr \<lparr>GPU_DEVICE_BUSY = False, GPU_QUEUE = [2], GPU_QUEUE_ID = 2\<rparr>
   \<and> release_gpu 1 \<lparr>GPU_DEVICE_BUSY = False, GPU_QUEUE = [2], GPU_QUEUE_ID = 2\<rparr> =
       Inl ValueError"
  using release_gpu_twice
    [of 1 "\<lparr>GPU_DEVICE_BUSY = False, GPU_QUEUE = [1, 2], GPU_QUEUE_ID = 2\<rparr>"]
  by simp

text \<open>
  Claim C6, as stated, fails: \<^verbatim>\<open>acquire_gpu\<close> makes no test. Called in a busy state it
  completes exactly as it does in a free state, and nothing tells the caller that the
  device was taken.
\<close>

theorem acquire_when_busy_counterexample:
  "acquire_gpu 1 \<lparr>GPU_DEVICE_BUSY = True, GPU_QUEUE = [0, 1], GPU_QUEUE_ID = 1\<rparr> =
     \<lparr>GPU_DEVICE_BUSY = True, GPU_QUEUE = [0, 1], GPU_QUEUE_ID = 1\<rparr>
   \<and> acquire_gpu 1 \<lparr>GPU_DEVICE_BUSY = False, GPU_QUEUE = [0, 1], GPU_QUEUE_ID = 1\<rparr> =
     \<lparr>GPU_DEVICE_BUSY = True, GPU_QUEUE = [0, 1], GPU_QUEUE_ID = 1\<rparr>"
  by (simp add: acquire_gpu_def)

text \<open>
  Claim C6, amended. The acquire operation always completes and leaves the state busy,
  from a free state and from a busy one alike, and touches neither the queue nor the
  counter. Line 67 of \<^verbatim>\<open>forecast\<close> is \<^verbatim>\<open>acquire_gpu\<close> on the call's ticket, whatever the
  flag is then. What its caller has tested before are two separate reads of the loop test
  of line 56: a call arrives at line 67 only from the read of the queue head, which found
  its ticket there, and at that read only from the read of the flag, which found it
  false.
\<close>

theorem acquire_gpu_unconditional:
  "GPU_DEVICE_BUSY (acquire_gpu t g)
   \<and> GPU_QUEUE (acquire_gpu t g) = GPU_QUEUE g
   \<and> GPU_QUEUE_ID (acquire_gpu t g) = GPU_QUEUE_ID g
   \<and> (pc f = L67 \<longrightarrow> exec f g = (f\<lparr>pc := L70\<rparr>, acquire_gpu (gpu_queue_id f) g))
   \<and> (pc (fst (exec f g)) = L67 \<longrightarrow> pc f = L56h \<and> queue_head g = Inr (gpu_queue_id f))
   \<and> (pc (fst (exec f g)) = L56h \<longrightarrow> pc f = L56 \<and> \<not> GPU_DEVICE_BUSY g)"
proof -
  have a: "pc f = L56h \<and> queue_head g = Inr (gpu_queue_id f)"
    if "pc (fst (exec f g)) = L67"
    using that
    by (cases "pc f")
       (simp_all add: exec_def Let_def
          split: if_splits sum.splits option.splits computation.splits)
  have b: "pc f = L56 \<and> \<not> GPU_DEVICE_BUSY g"
    if "pc (fst (exec f g)) = L56h"
    using that
    by (cases "pc f")
       (simp_all add: exec_def Let_def
          split: if_splits sum.splits option.splits computation.splits)
  have c: "exec f g = (f\<lparr>pc := L70\<rparr>, acquire_gpu (gpu_queue_id f) g)" if "pc f = L67"
    using that by (simp add: exec_def)
  have d: "GPU_DEVICE_BUSY (acquire_gpu t g) \<and> GPU_QUEUE (acquire_gpu t g) = GPU_QUEUE g
           \<and> GPU_QUEUE_ID (acquire_gpu t g) = GPU_QUEUE_ID g"
    by (simp add: acquire_gpu_def)
  show ?thesis
    using a b c d by blast
qed

theorem acquire_gpu_unconditional_witness:
  "pc ((new_call Raises)\<lparr>pc := L67\<rparr>) = L67
   \<and> exec ((new_call Raises)\<lparr>pc := L67\<rparr>)
          \<lparr>GPU_DEVICE_BUSY = True, GPU_QUEUE = [0], GPU_QUEUE_ID = 0\<rparr> =
       ((new_call Raises)\<lparr>pc := L70\<rparr>,
        \<lparr>GPU_DEVICE_BUSY = True, GPU_QUEUE = [0], GPU_QUEUE_ID = 0\<rparr>)
   \<and> pc (fst (exec ((new_call Raises)\<lparr>pc := L56h\<rparr>)
                 \<lparr>GPU_DEVICE_BUSY = True, GPU_QUEUE = [0], GPU_QUEUE_ID = 0\<rparr>)) = L67
   \<and> queue_head \<lparr>GPU_DEVICE_BUSY = True, GPU_QUEUE = [0], GPU_QUEUE_ID = 0\<rparr> =
       Inr (gpu_queue_id ((new_call Raises)\<lparr>pc := L56h\<rparr>))
   \<and> pc (fst (exec ((new_call Raises)\<lparr>pc := L56\<rparr>)
                 \<lparr>GPU_DEVICE_BUSY = False, GPU_QUEUE = [0], GPU_QUEUE_ID = 0\<rparr>)) = L56h
   \<and> \<not> GPU_DEVICE_BUSY \<lparr>GPU_DEVICE_BUSY = False, GPU_QUEUE = [0], GPU_QUEUE_ID = 0\<rparr>"
proof -
  have h1: "pc ((new_call Raises)\<lparr>pc := L67\<rparr>) = L67"
    by simp
  have h2: "pc (fst (exec ((new_call Raises)\<lparr>pc := L56h\<rparr>)
                 \<lparr>GPU_DEVICE_BUSY = True, GPU_QUEUE = [0], GPU_QUEUE_ID = 0\<rparr>)) = L67"
    by (simp add: sys_simps)
  have h3: "pc (fst (exec ((new_call Raises)\<lparr>pc := L56\<rparr>)
                 \<lparr>GPU_DEVICE_BUSY = False, GPU_QUEUE = [0], GPU_QUEUE_ID = 0\<rparr>)) = L56h"
    by (simp add: sys_simps)
  show ?thesis
    using h1 h2 h3
      acquire_gpu_unconditional
        [of 0 "\<lparr>GPU_DEVICE_BUSY = True, GPU_QUEUE = [0], GPU_QUEUE_ID = 0\<rparr>"
            "(new_call Raises)\<lparr>pc := L67\<rparr>"]
      acquire_gpu_unconditional
        [of 0 "\<lparr>GPU_DEVICE_BUSY = True, GPU_QUEUE = [0], GPU_QUEUE_ID = 0\<rparr>"
            "(new_call Raises)\<lparr>pc := L56h\<rparr>"]
      acquire_gpu_unconditional
        [of 0 "\<lparr>GPU_DEVICE_BUSY = False, GPU_QUEUE = [0], GPU_QUEUE_ID = 0\<rparr>"
            "(new_call Raises)\<lparr>pc := L56\<rparr>"]
    by (simp add: acquire_gpu_def new_call_def)
qed

subsection \<open>The wait loop\<close>

lemma poll_even: "run (replicate (2 * k) 1) (polling c L56) = polling (c + int k) L56"
proof (induction k arbitrary: c)
  case 0
  show ?case by simp
next
  case (Suc k)
  have "run [1, 1] (polling c L56) = polling (c + 1) L56"
    by (simp add: polling_def sys_simps)
  then show ?case
    using Suc.IH [of "c + 1"] by (simp add: add.commute add.left_commute)
qed

text \<open>
  Claim C2, evaluated where it fails. Call 0 takes the device and stays in its
  computation; call 1 enqueues and polls. After any number \<open>k\<close> of polls, 3601 and more
  included, call 1 is back at the loop test of line 56 with \<open>count = k\<close>, and one
  step later in the loop body of line 57: crossing \<^verbatim>\<open>count > 60 * 60\<close> builds an
  \<^verbatim>\<open>Output\<close> that is dropped, and the call never returns a timeout failure.
\<close>

theorem timeout_never_returned:
  "run [0, 0, 0, 0, 0, 0, 0, 0, 1, 1, 1, 1, 1] (init_system [Returns None, Returns None]) =
     polling 0 L56
   \<and> run (replicate (2 * k) 1) (polling 0 L56) = polling (int k) L56
   \<and> run (replicate (2 * k + 1) 1) (polling 0 L56) = polling (int k) L57"
proof -
  have e: "run (replicate (2 * k) 1) (polling 0 L56) = polling (int k) L56"
    using poll_even [of k 0] by simp
  have "replicate (2 * k + 1) (1::nat) = replicate (2 * k) 1 @ [1]"
    by (simp add: replicate_append_same)
  then have "run (replicate (2 * k + 1) 1) (polling 0 L56) = step 1 (polling (int k) L56)"
    by (simp only: run_append e run.simps)
  then show ?thesis
    using e by (simp add: polling_def sys_simps)
qed

subsection \<open>Completion of a call\<close>

text \<open>
  Claim C1, evaluated where it fails. One call, from the initial globals, whose
  computation reports an error: the call returns the default \<^verbatim>\<open>Output\<close> from line 102
  with the flag still set and its ticket still in the queue.
\<close>

theorem computation_failure_keeps_lock:
  "run [0, 0, 0, 0, 0, 0, 0, 0, 0, 0]
       (init_system [Returns (Some [(''error'', PyStr ''no data'')])]) =
     \<lparr>globals = \<lparr>GPU_DEVICE_BUSY = True, GPU_QUEUE = [0], GPU_QUEUE_ID = 0\<rparr>,
      calls = [\<lparr>pc = Returned Output_default, gpu_queue_id = 0, count = 0, loaded = 0,
                response = Some [(''error'', PyStr ''no data'')],
                grpc_context = \<lparr>details = Some (PyStr ''no data''), code = Some INTERNAL\<rparr>,
                computation = Returns (Some [(''error'', PyStr ''no data'')])\<rparr>]\<rparr>"
  by (simp add: sys_simps error_msg_def)

text \<open>
  Claim C9, evaluated where it fails. Call 0 is the holder and call 1 waits behind it;
  the computation of call 0 reports an error. Call 0 returns from line 102 without any
  cleanup: the flag stays set, ticket 0 stays at the head of the queue, and call 1 is
  still in its wait loop.
\<close>

theorem failure_return_skips_cleanup:
  "run [0, 0, 0, 0, 0, 0, 0, 0, 1, 1, 1, 1, 1, 1, 1, 0, 0, 1, 1]
       (init_system [Returns (Some [(''error'', PyStr ''no data'')]), Returns None]) =
     \<lparr>globals = \<lparr>GPU_DEVICE_BUSY = True, GPU_QUEUE = [0, 1], GPU_QUEUE_ID = 1\<rparr>,
      calls = [\<lparr>pc = Returned Output_default, gpu_queue_id = 0, count = 0, loaded = 0,
                response = Some [(''error'', PyStr ''no data'')],
                grpc_context = \<lparr>details = Some (PyStr ''no data''), code = Some INTERNAL\<rparr>,
                computation = Returns (Some [(''error'', PyStr ''no data'')])\<rparr>,
               \<lparr>pc = L56, gpu_queue_id = 1, count = 2, loaded = 1, response = None,
                grpc_context = fresh_context, computation = Returns None\<rparr>]\<rparr>"
  by (simp add: sys_simps error_msg_def)

section \<open>Calls running side by side\<close>

subsection \<open>One step of a call\<close>

lemma queue_head_mem: "queue_head g = Inr t \<Longrightarrow> t \<in> set (GPU_QUEUE g)"
  by (auto simp: queue_head_def split: list.splits)

lemma queue_head_nonempty: "t \<in> set (GPU_QUEUE g) \<Longrightarrow> \<exists>h. queue_head g = Inr h"
  by (cases "GPU_QUEUE g") (simp_all add: queue_head_def)

lemma phase_of_Fresh: "phase_of p = Fresh \<longleftrightarrow> p = L132"
  by (cases p) simp_all

lemma Output_new_cases: "(\<exists>e. Output_new r = Inl e) \<or> (\<exists>out. Output_new r = Inr out)"
  by (cases "Output_new r") auto

text \<open>What one step of an enqueued call does, under the invariant of its frame.\<close>

lemma exec_frame:
  assumes ok: "frame_ok g f" and nf: "pc f \<noteq> L132" and d: "distinct (GPU_QUEUE g)"
    and ex: "exec f g = (f', g')"
  shows "frame_ok g' f' \<and> gpu_queue_id f' = gpu_queue_id f \<and> pc f' \<noteq> L132
     \<and> GPU_QUEUE_ID g' = GPU_QUEUE_ID g
     \<and> (phase_of (pc f') \<in> {Waiting, Testing, Passed} \<longrightarrow> phase_of (pc f) \<in> {Waiting, Testing})
     \<and> (pc f = L67 \<longrightarrow> phase_of (pc f') = Holding)
     \<and> (g' = g \<or> g' = g\<lparr>GPU_DEVICE_BUSY := True\<rparr> \<or> g' = g\<lparr>GPU_DEVICE_BUSY := False\<rparr>
        \<or> g' = g\<lparr>GPU_QUEUE := remove1 (gpu_queue_id f) (GPU_QUEUE g)\<rparr>
          \<and> queue_head g = Inr (gpu_queue_id f))"
proof (cases "pc f")
  case L56
  then show ?thesis using ok ex
    by (auto simp: exec_def frame_ok_def split: if_splits)
next
  case L56h
  then show ?thesis using ok ex queue_head_nonempty [of "gpu_queue_id f" g]
    by (auto simp: exec_def frame_ok_def split: if_splits sum.splits)
next
  case L57
  then show ?thesis using ok ex queue_head_nonempty [of "gpu_queue_id f" g]
    by (auto simp: exec_def frame_ok_def Let_def split: if_splits)
next
  case L67
  then show ?thesis using ok ex
    by (auto simp: exec_def frame_ok_def acquire_gpu_def queue_head_def)
next
  case L70
  then show ?thesis using ok ex
    by (auto simp: exec_def frame_ok_def split: computation.splits)
next
  case L97
  then show ?thesis using ok ex
    by (auto simp: exec_def frame_ok_def split: option.splits sum.splits)
next
  case L104
  then show ?thesis using ok ex
    by (auto simp: exec_def frame_ok_def split: sum.splits)
next
  case L152
  then show ?thesis using ok ex d
    by (auto simp: exec_def frame_ok_def remove_from_queue_def)
next
  case L153
  then show ?thesis using ok ex
    by (auto simp: exec_def frame_ok_def)
next
  case L114
  then show ?thesis using ok ex
    by (auto simp: exec_def frame_ok_def split: sum.splits)
next
  case L120
  then show ?thesis using ok ex queue_head_mem [of g "gpu_queue_id f"]
    by (auto simp: exec_def frame_ok_def split: sum.splits if_splits)
next
  case H152
  then show ?thesis using ok ex d
    by (auto simp: exec_def frame_ok_def remove_from_queue_def)
next
  case H153
  then show ?thesis using ok ex
    by (auto simp: exec_def frame_ok_def)
next
  case L123
  then show ?thesis using ok ex
    by (auto simp: exec_def frame_ok_def remove_from_queue_def)
next
  case L124
  then show ?thesis using ok ex
    by (auto simp: exec_def frame_ok_def)
next
  case (Returned out)
  then show ?thesis using ok ex
    by (auto simp: exec_def frame_ok_def)
next
  case (Propagated e)
  then show ?thesis using ok ex
    by (auto simp: exec_def frame_ok_def)
qed (use ok nf in \<open>simp_all add: frame_ok_def\<close>)

lemma frame_ok_flag [simp]: "frame_ok (g\<lparr>GPU_DEVICE_BUSY := b\<rparr>) f = frame_ok g f"
  by (simp add: frame_ok_def queue_head_def)

lemma frame_ok_remove:
  assumes "frame_ok g f" and "queue_head g = Inr t" and "pc f \<noteq> L132 \<longrightarrow> gpu_queue_id f \<noteq> t"
  shows "frame_ok (g\<lparr>GPU_QUEUE := remove1 t (GPU_QUEUE g)\<rparr>) f"
  using assms
  by (cases "phase_of (pc f)")
     (auto simp: frame_ok_def phase_of_Fresh dest: notin_set_remove1)

lemma queue_head_append:
  "queue_head g = Inr t \<Longrightarrow> queue_head (g\<lparr>GPU_QUEUE_ID := n, GPU_QUEUE := GPU_QUEUE g @ xs\<rparr>) = Inr t"
  by (cases "GPU_QUEUE g") (simp_all add: queue_head_def)

lemma frame_ok_enqueue:
  "frame_ok g f \<Longrightarrow>
   frame_ok (g\<lparr>GPU_QUEUE_ID := GPU_QUEUE_ID g + 1,
              GPU_QUEUE := GPU_QUEUE g @ [GPU_QUEUE_ID g + 1]\<rparr>) f"
  by (cases "phase_of (pc f)") (auto simp: frame_ok_def queue_head_append)

lemma sorted_wrt_remove1: "sorted_wrt (<) (xs::int list) \<Longrightarrow> sorted_wrt (<) (remove1 x xs)"
  by (induction xs) (auto dest: notin_set_remove1)

lemma sorted_wrt_distinct: "sorted_wrt (<) (xs::int list) \<Longrightarrow> distinct xs"
  by (induction xs) auto

subsection \<open>Steps of the system\<close>

lemma inv_updateI:
  assumes I: "inv s" and i: "i < length (calls s)"
    and srt: "sorted_wrt (<) (GPU_QUEUE g')"
    and bnd: "\<forall>t \<in> set (GPU_QUEUE g'). t \<le> GPU_QUEUE_ID g'"
    and new: "frame_ok g' f'"
    and old: "\<And>j. j < length (calls s) \<Longrightarrow> j \<noteq> i \<Longrightarrow> frame_ok g' (calls s ! j)"
    and tick: "\<And>j. j < length (calls s) \<Longrightarrow> j \<noteq> i \<Longrightarrow> pc f' \<noteq> L132 \<Longrightarrow>
                 pc (calls s ! j) \<noteq> L132 \<Longrightarrow>
                 gpu_queue_id (calls s ! j) \<noteq> gpu_queue_id f'"
  shows "inv \<lparr>globals = g', calls = (calls s)[i := f']\<rparr>"
proof -
  let ?cs = "(calls s)[i := f']"
  have a: "\<forall>k < length ?cs. frame_ok g' (?cs ! k)"
    using new old i by (auto simp: nth_list_update)
  have b: "\<forall>k < length ?cs. \<forall>j < length ?cs.
        phase_of (pc (?cs ! k)) \<noteq> Fresh \<and> phase_of (pc (?cs ! j)) \<noteq> Fresh
        \<and> gpu_queue_id (?cs ! k) = gpu_queue_id (?cs ! j) \<longrightarrow> k = j"
  proof (intro allI impI)
    fix k j
    assume k: "k < length ?cs" and j: "j < length ?cs"
      and h: "phase_of (pc (?cs ! k)) \<noteq> Fresh \<and> phase_of (pc (?cs ! j)) \<noteq> Fresh
        \<and> gpu_queue_id (?cs ! k) = gpu_queue_id (?cs ! j)"
    show "k = j"
    proof (cases "k = i")
      case True
      then show ?thesis using tick [of j] j h i
        by (cases "j = i") (auto simp: nth_list_update phase_of_Fresh)
    next
      case False
      show ?thesis
      proof (cases "j = i")
        case True
        then show ?thesis using tick [of k] k h i False
          by (auto simp: nth_list_update phase_of_Fresh)
      next
        case jf: False
        then show ?thesis using I k j h False by (simp add: inv_def)
      qed
    qed
  qed
  show ?thesis
    unfolding inv_def using srt bnd a b by simp
qed

lemma inv_distinct:
  assumes "inv s" and "i < length (calls s)" and "j < length (calls s)" and "j \<noteq> i"
    and "pc (calls s ! i) \<noteq> L132" and "pc (calls s ! j) \<noteq> L132"
  shows "gpu_queue_id (calls s ! j) \<noteq> gpu_queue_id (calls s ! i)"
  using assms unfolding inv_def phase_of_Fresh by blast

lemma inv_step:
  assumes I: "inv s" and i: "i < length (calls s)" and nf: "pc (calls s ! i) \<noteq> L132"
  shows "inv (step i s)"
proof -
  define g where "g = globals s"
  define f where "f = calls s ! i"
  obtain f' g' where ex: "exec f g = (f', g')"
    by fastforce
  have st: "step i s = \<lparr>globals = g', calls = (calls s)[i := f']\<rparr>"
    using i ex by (simp add: step_def f_def g_def)
  have srt: "sorted_wrt (<) (GPU_QUEUE g)" and bnd: "\<forall>t \<in> set (GPU_QUEUE g). t \<le> GPU_QUEUE_ID g"
    using I by (simp_all add: inv_def g_def)
  have ok: "frame_ok g (calls s ! j)" if "j < length (calls s)" for j
    using I that by (simp add: inv_def g_def)
  have okf: "frame_ok g f"
    using ok i by (simp add: f_def)
  have nff: "pc f \<noteq> L132"
    using nf by (simp add: f_def)
  have uniq: "gpu_queue_id (calls s ! j) \<noteq> gpu_queue_id f"
    if "j < length (calls s)" "j \<noteq> i" "pc (calls s ! j) \<noteq> L132" for j
    using inv_distinct [OF I i that(1,2) nf that(3)] by (simp add: f_def)
  note eff = exec_frame [OF okf nff sorted_wrt_distinct [OF srt] ex]
  have new: "frame_ok g' f'" and id: "gpu_queue_id f' = gpu_queue_id f"
    and ctr: "GPU_QUEUE_ID g' = GPU_QUEUE_ID g"
    using eff by simp_all
  have glob: "g' = g \<or> g' = g\<lparr>GPU_DEVICE_BUSY := True\<rparr> \<or> g' = g\<lparr>GPU_DEVICE_BUSY := False\<rparr>
        \<or> g' = g\<lparr>GPU_QUEUE := remove1 (gpu_queue_id f) (GPU_QUEUE g)\<rparr>
          \<and> queue_head g = Inr (gpu_queue_id f)"
    using eff by blast
  have old: "frame_ok g' (calls s ! j)" if j: "j < length (calls s)" "j \<noteq> i" for j
  proof -
    have "frame_ok (g\<lparr>GPU_QUEUE := remove1 (gpu_queue_id f) (GPU_QUEUE g)\<rparr>) (calls s ! j)"
      if "queue_head g = Inr (gpu_queue_id f)"
      using ok [OF j(1)] that uniq [OF j] by (intro frame_ok_remove) simp_all
    then show ?thesis
      using glob ok [OF j(1)] by auto
  qed
  have srt': "sorted_wrt (<) (GPU_QUEUE g')"
    using glob srt by (auto simp: sorted_wrt_remove1)
  have bnd': "\<forall>t \<in> set (GPU_QUEUE g'). t \<le> GPU_QUEUE_ID g'"
    using glob bnd by (auto dest: notin_set_remove1)
  have "inv \<lparr>globals = g', calls = (calls s)[i := f']\<rparr>"
  proof (rule inv_updateI [OF I i srt' bnd' new old])
    show "gpu_queue_id (calls s ! j) \<noteq> gpu_queue_id f'"
      if "j < length (calls s)" "j \<noteq> i" "pc (calls s ! j) \<noteq> L132" for j
      using uniq [OF that] id by simp
  qed
  then show ?thesis
    by (simp add: st)
qed

lemma run5_fresh:
  assumes "fresh i s"
  shows "run [i, i, i, i, i] s =
     \<lparr>globals = (globals s)\<lparr>GPU_QUEUE_ID := GPU_QUEUE_ID (globals s) + 1,
                            GPU_QUEUE := GPU_QUEUE (globals s) @ [GPU_QUEUE_ID (globals s) + 1]\<rparr>,
      calls = (calls s)[i := (calls s ! i)\<lparr>loaded := GPU_QUEUE_ID (globals s) + 1,
                 pc := L56, gpu_queue_id := GPU_QUEUE_ID (globals s) + 1, count := 0\<rparr>]\<rparr>"
  using assms by (simp add: fresh_def step_def exec_def)

text \<open>
  The steps of lines 132--135 run back to back are \<^verbatim>\<open>get_gpu_queue_id\<close>, and those
  of lines 152--153 are \<^verbatim>\<open>release_gpu\<close>.
\<close>

lemma get_gpu_queue_id_steps:
  assumes "fresh i s"
  shows "globals (run [i, i, i, i, i] s) = snd (get_gpu_queue_id (globals s))"
    and "gpu_queue_id (calls (run [i, i, i, i, i] s) ! i) = fst (get_gpu_queue_id (globals s))"
    and "pc (calls (run [i, i, i, i, i] s) ! i) = L56"
  using assms
  by (simp_all add: run5_fresh fresh_def get_gpu_queue_id_def Let_def del: run.simps)

lemma release_gpu_steps:
  assumes "i < length (calls s)" and "pc (calls s ! i) = L152"
  shows "case release_gpu (gpu_queue_id (calls s ! i)) (globals s) of
           Inr g' \<Rightarrow> globals (run [i, i] s) = g' \<and> pc (calls (run [i, i] s) ! i) = L114
         | Inl e \<Rightarrow> globals (step i s) = globals s \<and> pc (calls (step i s) ! i) = L120"
  using assms
  by (simp add: release_gpu_def remove_from_queue_def step_def exec_def)

lemma inv_enqueue:
  assumes I: "inv s" and fr: "fresh i s"
  shows "inv (run [i, i, i, i, i] s)"
proof -
  have i: "i < length (calls s)" using fr by (simp add: fresh_def)
  have ok: "frame_ok (globals s) (calls s ! j)" if "j < length (calls s)" for j
    using I that by (simp add: inv_def)
  let ?g = "(globals s)\<lparr>GPU_QUEUE_ID := GPU_QUEUE_ID (globals s) + 1,
            GPU_QUEUE := GPU_QUEUE (globals s) @ [GPU_QUEUE_ID (globals s) + 1]\<rparr>"
  let ?f = "(calls s ! i)\<lparr>loaded := GPU_QUEUE_ID (globals s) + 1, pc := L56,
            gpu_queue_id := GPU_QUEUE_ID (globals s) + 1, count := 0\<rparr>"
  show ?thesis
    unfolding run5_fresh [OF fr]
  proof (rule inv_updateI [OF I i])
    show "sorted_wrt (<) (GPU_QUEUE ?g)"
      using I by (auto simp: inv_def sorted_wrt_append)
    show "\<forall>t\<in>set (GPU_QUEUE ?g). t \<le> GPU_QUEUE_ID ?g"
      using I by (auto simp: inv_def)
    show "frame_ok ?g ?f"
      by (simp add: frame_ok_def)
    show "frame_ok ?g (calls s ! j)" if "j < length (calls s)" for j
      using ok that by (intro frame_ok_enqueue)
    show "gpu_queue_id (calls s ! j) \<noteq> gpu_queue_id ?f"
      if "j < length (calls s)" "pc (calls s ! j) \<noteq> L132" for j
      using ok [OF that(1)] that(2) by (simp add: frame_ok_def phase_of_Fresh)
  qed
qed

subsection \<open>The history of an execution\<close>

text \<open>What one step of an enqueued call does to its frame, under the invariant.\<close>

lemma step_frame:
  assumes I: "inv s" and i: "i < length (calls s)" and nf: "pc (calls s ! i) \<noteq> L132"
  obtains f' g' where "step i s = \<lparr>globals = g', calls = (calls s)[i := f']\<rparr>"
    and "gpu_queue_id f' = gpu_queue_id (calls s ! i)"
    and "pc f' \<noteq> L132"
    and "GPU_QUEUE_ID g' = GPU_QUEUE_ID (globals s)"
    and "phase_of (pc f') \<in> {Waiting, Testing, Passed} \<Longrightarrow>
           phase_of (pc (calls s ! i)) \<in> {Waiting, Testing}"
    and "pc (calls s ! i) = L67 \<Longrightarrow> phase_of (pc f') = Holding"
proof -
  obtain f' g' where ex: "exec (calls s ! i) (globals s) = (f', g')"
    by fastforce
  have st: "step i s = \<lparr>globals = g', calls = (calls s)[i := f']\<rparr>"
    using i ex by (simp add: step_def)
  have okf: "frame_ok (globals s) (calls s ! i)"
    using I i by (simp add: inv_def)
  have d: "distinct (GPU_QUEUE (globals s))"
    using I by (simp add: inv_def sorted_wrt_distinct)
  note eff = exec_frame [OF okf nf d ex]
  show ?thesis
    using that [OF st] eff by blast
qed

lemma hist_step:
  assumes I: "inv s" and H: "hist s E A" and i: "i < length (calls s)"
    and nf: "pc (calls s ! i) \<noteq> L132"
  shows "hist (step i s) E (A @ (if pc (calls s ! i) = L67 then [i] else []))"
proof -
  obtain f' g' where st: "step i s = \<lparr>globals = g', calls = (calls s)[i := f']\<rparr>"
    and id: "gpu_queue_id f' = gpu_queue_id (calls s ! i)"
    and nf': "pc f' \<noteq> L132"
    and ctr: "GPU_QUEUE_ID g' = GPU_QUEUE_ID (globals s)"
    and wt: "phase_of (pc f') \<in> {Waiting, Testing, Passed} \<Longrightarrow>
               phase_of (pc (calls s ! i)) \<in> {Waiting, Testing}"
    and acq: "pc (calls s ! i) = L67 \<Longrightarrow> phase_of (pc f') = Holding"
    by (rule step_frame [OF I i nf]) blast
  have nfr: "phase_of (pc (calls s ! i)) \<noteq> Fresh"
    using nf by (simp add: phase_of_Fresh)
  have nfr': "phase_of (pc f') \<noteq> Fresh"
    using nf' by (simp add: phase_of_Fresh)
  have tk: "ticket (step i s) = ticket s"
  proof
    fix k show "ticket (step i s) k = ticket s k"
      using id i by (cases "k = i") (simp_all add: ticket_def st)
  qed
  have len: "length (calls (step i s)) = length (calls s)"
    by (simp add: st)
  have gid: "GPU_QUEUE_ID (globals (step i s)) = GPU_QUEUE_ID (globals s)"
    by (simp add: st ctr)
  have ph: "phase_of (pc (calls (step i s) ! k)) = phase_of (pc (calls s ! k))" if "k \<noteq> i" for k
    using that by (simp add: st)
  have phi: "calls (step i s) ! i = f'"
    using i by (simp add: st)
  have E: "\<forall>k. k \<in> set E \<longleftrightarrow> k < length (calls s) \<and> phase_of (pc (calls s ! k)) \<noteq> Fresh"
    and tE: "map (ticket s) E = [0 .. GPU_QUEUE_ID (globals s)]"
    and lo: "- 1 \<le> GPU_QUEUE_ID (globals s)"
    and sE: "sorted_wrt (<) (map (ticket s) E)"
    and sA: "sorted_wrt (<) (map (ticket s) A)"
    and AE: "set A \<subseteq> set E"
    and lt: "\<forall>a \<in> set A. \<forall>j < length (calls s).
        phase_of (pc (calls s ! j)) \<in> {Waiting, Testing, Passed}
        \<longrightarrow> ticket s a < ticket s j"
    using H by (simp_all add: hist_def)
  have E': "\<forall>k. k \<in> set E \<longleftrightarrow>
        k < length (calls (step i s)) \<and> phase_of (pc (calls (step i s) ! k)) \<noteq> Fresh"
  proof
    fix k show "k \<in> set E \<longleftrightarrow>
        k < length (calls (step i s)) \<and> phase_of (pc (calls (step i s) ! k)) \<noteq> Fresh"
      using E nfr nfr' i by (cases "k = i") (simp_all add: len ph phi)
  qed
  have lt': "ticket s a < ticket s j"
    if "a \<in> set A" "j < length (calls s)"
      "phase_of (pc (calls (step i s) ! j)) \<in> {Waiting, Testing, Passed}"
    for a j
  proof (cases "j = i")
    case True
    then have "phase_of (pc (calls s ! i)) \<in> {Waiting, Testing}"
      using that(3) wt by (simp add: phi)
    then show ?thesis using lt that(1) i True by blast
  next
    case False
    then show ?thesis using lt that(1,2) that(3) [unfolded ph [OF False]] by blast
  qed
  show ?thesis
  proof (cases "pc (calls s ! i) = L67")
    case False
    then show ?thesis
      unfolding hist_def tk len gid using E' tE lo sE sA AE lt' by (simp add: len)
  next
    case True
    have okf: "frame_ok (globals s) (calls s ! i)"
      using I i by (simp add: inv_def)
    have hd: "queue_head (globals s) = Inr (ticket s i)"
      using okf True by (simp add: frame_ok_def ticket_def)
    have srt: "sorted_wrt (<) (GPU_QUEUE (globals s))"
      using I by (simp add: inv_def)
    have before: "ticket s a < ticket s i" if "a \<in> set A" for a
      using lt that i True by simp
    have after: "ticket s i < ticket s j"
      if j: "j < length (calls s)"
        and w: "phase_of (pc (calls (step i s) ! j)) \<in> {Waiting, Testing, Passed}"
      for j
    proof -
      have ji: "j \<noteq> i" using w acq [OF True] by (auto simp: phi)
      then have w0: "phase_of (pc (calls s ! j)) \<in> {Waiting, Testing, Passed}"
        using w by (simp add: ph)
      have "frame_ok (globals s) (calls s ! j)"
        using I j by (simp add: inv_def)
      then have mem: "ticket s j \<in> set (GPU_QUEUE (globals s))"
        using w0 by (auto simp: frame_ok_def ticket_def)
      have "pc (calls s ! j) \<noteq> L132"
        using w0 by (auto simp: phase_of_Fresh [symmetric])
      then have ne: "ticket s j \<noteq> ticket s i"
        using inv_distinct [OF I i j ji nf] by (simp add: ticket_def)
      show ?thesis
        using hd mem ne srt by (cases "GPU_QUEUE (globals s)") (auto simp: queue_head_def)
    qed
    have "i \<in> set E" using E i nfr by simp
    then show ?thesis
      unfolding hist_def tk len gid using True E' tE lo sE sA AE lt' before after
      by (auto simp: sorted_wrt_append len)
  qed
qed

lemma hist_enqueue:
  assumes I: "inv s" and H: "hist s E A" and fr: "fresh i s"
  shows "hist (run [i, i, i, i, i] s) (E @ [i]) A"
proof -
  define s' where "s' = run [i, i, i, i, i] s"
  note s5 = run5_fresh [OF fr, folded s'_def]
  have i: "i < length (calls s)" and p: "pc (calls s ! i) = L132"
    using fr by (simp_all add: fresh_def)
  let ?n = "GPU_QUEUE_ID (globals s) + 1"
  have tki: "ticket s' i = ?n"
    using i by (simp add: s5 ticket_def)
  have tk: "ticket s' k = ticket s k" if "k \<noteq> i" for k
    using that by (simp add: s5 ticket_def)
  have len: "length (calls s') = length (calls s)"
    by (simp add: s5)
  have gid: "GPU_QUEUE_ID (globals s') = ?n"
    by (simp add: s5)
  have ph: "phase_of (pc (calls s' ! k)) = phase_of (pc (calls s ! k))"
    if "k \<noteq> i" for k
    using that by (simp add: s5)
  have phi: "phase_of (pc (calls s' ! i)) = Waiting"
    using i by (simp add: s5)
  have E: "\<forall>k. k \<in> set E \<longleftrightarrow> k < length (calls s) \<and> phase_of (pc (calls s ! k)) \<noteq> Fresh"
    and tE: "map (ticket s) E = [0 .. GPU_QUEUE_ID (globals s)]"
    and lo: "- 1 \<le> GPU_QUEUE_ID (globals s)"
    and sE: "sorted_wrt (<) (map (ticket s) E)"
    and sA: "sorted_wrt (<) (map (ticket s) A)"
    and AE: "set A \<subseteq> set E"
    and lt: "\<forall>a \<in> set A. \<forall>j < length (calls s).
        phase_of (pc (calls s ! j)) \<in> {Waiting, Testing, Passed}
        \<longrightarrow> ticket s a < ticket s j"
    using H by (simp_all add: hist_def)
  have iE: "i \<notin> set E" using E p by simp
  then have iA: "i \<notin> set A" using AE by blast
  have bound: "ticket s k < ?n" if "k \<in> set E" for k
  proof -
    have "k < length (calls s)" "phase_of (pc (calls s ! k)) \<noteq> Fresh" using E that by simp_all
    moreover then have "frame_ok (globals s) (calls s ! k)" using I by (simp add: inv_def)
    ultimately show ?thesis by (simp add: frame_ok_def ticket_def)
  qed
  have mE: "map (ticket s') E = map (ticket s) E"
    using iE tk by (intro map_cong refl) metis
  have mA: "map (ticket s') A = map (ticket s) A"
    using iA tk by (intro map_cong refl) metis
  have a1: "\<forall>k. k \<in> set (E @ [i]) \<longleftrightarrow>
      k < length (calls s') \<and> phase_of (pc (calls s' ! k)) \<noteq> Fresh"
  proof
    fix k show "k \<in> set (E @ [i]) \<longleftrightarrow>
      k < length (calls s') \<and> phase_of (pc (calls s' ! k)) \<noteq> Fresh"
      using E i by (cases "k = i") (simp_all add: len ph phi)
  qed
  have up: "[0 .. ?n] = [0 .. GPU_QUEUE_ID (globals s)] @ [?n]"
    using lo by (subst upto_rec2) simp_all
  have a2: "map (ticket s') (E @ [i]) = [0 .. GPU_QUEUE_ID (globals s')]"
    unfolding gid up by (simp add: mE tE tki)
  have a3: "sorted_wrt (<) (map (ticket s') (E @ [i]))"
    using sE bound by (simp add: sorted_wrt_append mE tki)
  have a5: "ticket s' a < ticket s' j"
    if a: "a \<in> set A" and j: "j < length (calls s)"
      and w: "phase_of (pc (calls s' ! j)) \<in> {Waiting, Testing, Passed}"
    for a j
  proof (cases "j = i")
    case True
    have "a \<noteq> i" using a iA by blast
    then show ?thesis using bound [of a] a AE True by (auto simp: tk tki)
  next
    case False
    have "a \<noteq> i" using a iA by blast
    then show ?thesis using lt a j w False by (auto simp: tk ph)
  qed
  have lo': "- 1 \<le> GPU_QUEUE_ID (globals s')"
    using lo by (simp add: gid)
  have "hist s' (E @ [i]) A"
    unfolding hist_def using a1 a2 lo' a3 sA AE a5 by (auto simp: mA len)
  then show ?thesis
    by (simp only: s'_def)
qed

lemma events_fresh:
  assumes fr: "fresh i s"
  shows "enqueue_order (i # i # i # i # i # rest) s
           = i # enqueue_order rest (run [i, i, i, i, i] s)"
    and "acquisitions (i # i # i # i # i # rest) s = acquisitions rest (run [i, i, i, i, i] s)"
    and "accesses_ok (i # i # i # i # i # rest) s = accesses_ok rest (run [i, i, i, i, i] s)"
  using fr by (simp_all add: fresh_def step_def exec_def access_ok_def)

lemma step_outside: "\<not> i < length (calls s) \<Longrightarrow> step i s = s"
  by (simp add: step_def)

lemma at_head_inv:
  assumes I: "inv s" and i: "i < length (calls s)" and p: "pc (calls s ! i) = L67"
  shows "at_head (i, gpu_queue_id (calls s ! i), GPU_QUEUE (globals s))"
proof -
  have "frame_ok (globals s) (calls s ! i)"
    using I i by (simp add: inv_def)
  then have "queue_head (globals s) = Inr (gpu_queue_id (calls s ! i))"
    using p by (simp add: frame_ok_def)
  moreover have "sorted_wrt (<) (GPU_QUEUE (globals s))"
    using I by (simp add: inv_def)
  ultimately show ?thesis
    by (cases "GPU_QUEUE (globals s)") (auto simp: queue_head_def list_all_iff)
qed

lemma not_enqueuing:
  assumes "inv s" and "i < length (calls s)"
  shows "pc (calls s ! i) \<noteq> L133a"
proof -
  have "frame_ok (globals s) (calls s ! i)"
    using assms by (simp add: inv_def)
  then have "phase_of (pc (calls s ! i)) \<noteq> Enqueuing"
    by (simp add: frame_ok_def)
  then show ?thesis
    by (cases "pc (calls s ! i)") simp_all
qed

subsection \<open>Results accepted by the constructor\<close>

lemma accepted_Output_new:
  assumes "accepted (Returns r)" and "result_keys r = Inr v"
  shows "\<exists>out. Output_new r = Inr out"
  using assms
  by (cases v) (auto simp: accepted_def Output_new_def Output_init_def)

lemma exec_response:
  assumes "response_ok f" and "exec f g = (f', g')"
  shows "response_ok f' \<and> computation f' = computation f"
  using assms
  by (cases "pc f")
     (auto simp: exec_def response_ok_def Let_def
        split: if_splits sum.splits option.splits computation.splits)

lemma exec_typed:
  assumes ok: "frame_ok g f" and ty: "typed_frame g f" and nf: "pc f \<noteq> L132"
    and ex: "exec f g = (f', g')"
  shows "typed_frame g' f'"
proof -
  have ro: "response_ok f'" and co: "computation f' = computation f"
    using exec_response [OF _ ex] ty by (simp_all add: typed_frame_def)
  have ac: "accepted (computation f')"
    using ty co by (simp add: typed_frame_def)
  have rest: "(pc f' = L120 \<longrightarrow> queue_head g' = Inr (gpu_queue_id f'))
      \<and> pc f' \<noteq> L123 \<and> (\<forall>e. pc f' \<noteq> Propagated e)"
  proof (cases "pc f")
    case L56h
    then show ?thesis using ok ex queue_head_nonempty [of "gpu_queue_id f" g]
      by (auto simp: exec_def frame_ok_def split: if_splits sum.splits)
  next
    case L57
    then show ?thesis using ok ex queue_head_nonempty [of "gpu_queue_id f" g]
      by (auto simp: exec_def frame_ok_def Let_def split: if_splits)
  next
    case L70
    then show ?thesis using ok ex
      by (auto simp: exec_def frame_ok_def split: computation.splits)
  next
    case L97
    then show ?thesis using ok ex
      by (auto simp: exec_def frame_ok_def split: option.splits sum.splits)
  next
    case L104
    then show ?thesis using ok ex
      by (auto simp: exec_def frame_ok_def split: sum.splits)
  next
    case L152
    then show ?thesis using ok ex
      by (auto simp: exec_def frame_ok_def remove_from_queue_def)
  next
    case L114
    have "computation f = Returns (response f)" "\<exists>v. result_keys (response f) = Inr v"
      using ty L114 by (simp_all add: typed_frame_def response_ok_def)
    then have "\<exists>out. Output_new (response f) = Inr out"
      using ty accepted_Output_new [of "response f"] by (auto simp: typed_frame_def)
    then show ?thesis using L114 ex
      by (auto simp: exec_def)
  next
    case L120
    then show ?thesis using ty ex
      by (auto simp: exec_def typed_frame_def)
  next
    case H152
    then show ?thesis using ok ex
      by (auto simp: exec_def frame_ok_def remove_from_queue_def)
  qed (use ty nf ex in \<open>auto simp: exec_def typed_frame_def acquire_gpu_def
         split: if_splits\<close>)
  show ?thesis
    unfolding typed_frame_def using ro ac rest by simp
qed

lemma typed_frame_flag [simp]: "typed_frame (g\<lparr>GPU_DEVICE_BUSY := b\<rparr>) f = typed_frame g f"
  by (simp add: typed_frame_def queue_head_def)

lemma typed_step:
  assumes I: "inv s" and T: "typed s" and i: "i < length (calls s)"
    and nf: "pc (calls s ! i) \<noteq> L132"
  shows "typed (step i s)"
proof -
  define g where "g = globals s"
  define f where "f = calls s ! i"
  obtain f' g' where ex: "exec f g = (f', g')"
    by fastforce
  have st: "step i s = \<lparr>globals = g', calls = (calls s)[i := f']\<rparr>"
    using i ex by (simp add: step_def f_def g_def)
  have okf: "frame_ok g f"
    using I i by (simp add: inv_def f_def g_def)
  have tyf: "typed_frame g f"
    using T i by (simp add: typed_def f_def g_def)
  have nff: "pc f \<noteq> L132"
    using nf by (simp add: f_def)
  have d: "distinct (GPU_QUEUE g)"
    using I by (simp add: inv_def g_def sorted_wrt_distinct)
  have new: "typed_frame g' f'"
    using exec_typed [OF okf tyf nff ex] .
  have glob: "g' = g \<or> g' = g\<lparr>GPU_DEVICE_BUSY := True\<rparr> \<or> g' = g\<lparr>GPU_DEVICE_BUSY := False\<rparr>
        \<or> g' = g\<lparr>GPU_QUEUE := remove1 (gpu_queue_id f) (GPU_QUEUE g)\<rparr>
          \<and> queue_head g = Inr (gpu_queue_id f)"
    using exec_frame [OF okf nff d ex] by blast
  have old: "typed_frame g' (calls s ! j)" if j: "j < length (calls s)" "j \<noteq> i" for j
  proof -
    have tj: "typed_frame g (calls s ! j)"
      using T j by (simp add: typed_def g_def)
    have "typed_frame (g\<lparr>GPU_QUEUE := remove1 (gpu_queue_id f) (GPU_QUEUE g)\<rparr>) (calls s ! j)"
      if h: "queue_head g = Inr (gpu_queue_id f)"
    proof -
      have "pc (calls s ! j) \<noteq> L120"
      proof
        assume p: "pc (calls s ! j) = L120"
        then have "queue_head g = Inr (gpu_queue_id (calls s ! j))"
          using tj by (simp add: typed_frame_def)
        then have "gpu_queue_id (calls s ! j) = gpu_queue_id (calls s ! i)"
          using h by (simp add: f_def)
        then show False
          using inv_distinct [OF I i j nf] p by simp
      qed
      then show ?thesis
        using tj by (simp add: typed_frame_def)
    qed
    then show ?thesis
      using glob tj by auto
  qed
  show ?thesis
    unfolding typed_def st using new old i by (auto simp: nth_list_update)
qed

lemma typed_enqueue:
  assumes T: "typed s" and fr: "fresh i s"
  shows "typed (run [i, i, i, i, i] s)"
proof -
  define s' where "s' = run [i, i, i, i, i] s"
  note s5 = run5_fresh [OF fr, folded s'_def]
  have i: "i < length (calls s)" and p: "pc (calls s ! i) = L132"
    using fr by (simp_all add: fresh_def)
  have "typed_frame (globals s') (calls s' ! k)" if k: "k < length (calls s)" for k
  proof (cases "k = i")
    case True
    have "typed_frame (globals s) (calls s ! i)"
      using T i by (simp add: typed_def)
    then show ?thesis
      using True i p by (simp add: s5 typed_frame_def response_ok_def)
  next
    case False
    have "typed_frame (globals s) (calls s ! k)"
      using T k by (simp add: typed_def)
    then show ?thesis
      using False by (simp add: s5 typed_frame_def queue_head_append)
  qed
  then have "typed s'"
    unfolding typed_def by (simp add: s5)
  then show ?thesis
    by (simp only: s'_def)
qed

lemma access_ok_typed:
  assumes "inv s" and "typed s" and "i < length (calls s)"
  shows "access_ok (calls s ! i) (globals s)"
proof -
  have "frame_ok (globals s) (calls s ! i)" "typed_frame (globals s) (calls s ! i)"
    using assms by (simp_all add: inv_def typed_def)
  then show ?thesis
    using queue_head_mem [of "globals s" "gpu_queue_id (calls s ! i)"]
    by (cases "pc (calls s ! i)") (simp_all add: access_ok_def frame_ok_def typed_frame_def)
qed

lemma subseq_by_ticket:
  fixes f :: "nat \<Rightarrow> int"
  shows "sorted_wrt (<) (map f xs) \<Longrightarrow> sorted_wrt (<) (map f ys) \<Longrightarrow> set xs \<subseteq> set ys \<Longrightarrow>
         subseq xs ys"
proof (induction ys arbitrary: xs)
  case Nil
  then show ?case by simp
next
  case (Cons y ys)
  show ?case
  proof (cases xs)
    case Nil
    then show ?thesis by simp
  next
    case (Cons x xs')
    show ?thesis
    proof (cases "x = y")
      case True
      have "set xs' \<subseteq> set ys"
      proof
        fix z assume z: "z \<in> set xs'"
        then have "f x < f z" using Cons.prems(1) Cons by auto
        then have "z \<noteq> y" using True by auto
        then show "z \<in> set ys" using z Cons.prems(3) Cons by auto
      qed
      then have "subseq xs' ys"
        using Cons.IH [of xs'] Cons.prems(1,2) Cons by simp
      then show ?thesis using True Cons by simp
    next
      case False
      then have xy: "x \<in> set ys" using Cons.prems(3) Cons by auto
      then have lt: "f y < f x" using Cons.prems(2) by auto
      have "set xs \<subseteq> set ys"
      proof
        fix z assume z: "z \<in> set xs"
        have "f x \<le> f z" using z Cons.prems(1) Cons by auto
        then have "z \<noteq> y" using lt by auto
        then show "z \<in> set ys" using z Cons.prems(3) by auto
      qed
      then have "subseq xs ys"
        using Cons.IH [of xs] Cons.prems(1,2) by simp
      then show ?thesis by (rule list_emb_Cons)
    qed
  qed
qed

lemma inv_init: "inv (init_system cs)"
  by (simp add: inv_def init_system_def init_globals_def new_call_def frame_ok_def)

lemma hist_init: "hist (init_system cs) [] []"
  by (simp add: hist_def init_system_def init_globals_def new_call_def)

lemma typed_init: "list_all accepted cs \<Longrightarrow> typed (init_system cs)"
  by (simp add: typed_def typed_frame_def response_ok_def init_system_def new_call_def
      list_all_length)

lemma atomic_run:
  "enqueue_atomic sched s \<Longrightarrow> inv s \<Longrightarrow> hist s E A \<Longrightarrow>
     inv (run sched s)
     \<and> hist (run sched s) (E @ enqueue_order sched s) (A @ map fst (acquisitions sched s))
     \<and> list_all at_head (acquisitions sched s)
     \<and> (typed s \<longrightarrow> accesses_ok sched s \<and> typed (run sched s))"
proof (induction sched s arbitrary: E A rule: enqueue_atomic.induct)
  case (1 s)
  then show ?case by simp
next
  case (2 i sched s)
  show ?case
  proof (cases "fresh i s")
    case True
    define rest where "rest = drop 4 sched"
    have tk: "take 4 sched = [i, i, i, i]"
      and ea: "enqueue_atomic rest (run [i, i, i, i, i] s)"
      using "2.prems"(1) True by (simp_all add: rest_def)
    have sched: "sched = i # i # i # i # rest"
      using tk append_take_drop_id [of 4 sched] by (simp add: rest_def)
    have I': "inv (run [i, i, i, i, i] s)"
      using "2.prems"(2) True by (rule inv_enqueue)
    have H': "hist (run [i, i, i, i, i] s) (E @ [i]) A"
      using "2.prems"(2,3) True by (rule hist_enqueue)
    have T': "typed (run [i, i, i, i, i] s)" if "typed s"
      using that True by (rule typed_enqueue)
    have r: "run (i # sched) s = run rest (run [i, i, i, i, i] s)"
      by (simp add: sched)
    note IH = "2.IH"(1) [OF True, folded rest_def, OF ea I' H']
    show ?thesis
      unfolding r unfolding sched events_fresh [OF True] using IH T' by simp
  next
    case False
    have ea: "enqueue_atomic sched (step i s)"
      using "2.prems"(1) False by simp
    show ?thesis
    proof (cases "i < length (calls s)")
      case out: False
      have st: "step i s = s" using out by (rule step_outside)
      have "inv (step i s)" "hist (step i s) E A"
        using "2.prems"(2,3) by (simp_all add: st)
      from "2.IH"(2) [OF False ea this] show ?thesis
        using out by (simp add: st)
    next
      case True
      have nf: "pc (calls s ! i) \<noteq> L132"
        using False True by (simp add: fresh_def)
      have I': "inv (step i s)"
        using "2.prems"(2) True nf by (rule inv_step)
      have H': "hist (step i s) E (A @ (if pc (calls s ! i) = L67 then [i] else []))"
        using "2.prems"(2,3) True nf by (rule hist_step)
      have T': "typed (step i s)" if "typed s"
        using "2.prems"(2) that True nf by (rule typed_step)
      note IH = "2.IH"(2) [OF False ea I' H']
      have ne: "pc (calls s ! i) \<noteq> L133a"
        using "2.prems"(2) True by (rule not_enqueuing)
      have ac: "access_ok (calls s ! i) (globals s)" if "typed s"
        using "2.prems"(2) that True by (rule access_ok_typed)
      show ?thesis
      proof (cases "pc (calls s ! i) = L67")
        case a: True
        have "at_head (i, gpu_queue_id (calls s ! i), GPU_QUEUE (globals s))"
          using "2.prems"(2) True a by (rule at_head_inv)
        then show ?thesis
          using IH True a ac T' by simp
      next
        case b: False
        then show ?thesis
          using IH True ne ac T' by simp
      qed
    qed
  qed
qed

subsection \<open>Ticket registry\<close>

lemma enqueue_n_eq:
  "enqueue_n n g =
     ([GPU_QUEUE_ID g + 1 .. GPU_QUEUE_ID g + int n],
      g\<lparr>GPU_QUEUE_ID := GPU_QUEUE_ID g + int n,
        GPU_QUEUE := GPU_QUEUE g @ [GPU_QUEUE_ID g + 1 .. GPU_QUEUE_ID g + int n]\<rparr>)"
proof (induction n arbitrary: g)
  case 0
  show ?case by simp
next
  case (Suc n)
  have up: "[GPU_QUEUE_ID g + 1 .. GPU_QUEUE_ID g + int (Suc n)] =
            (GPU_QUEUE_ID g + 1) # [GPU_QUEUE_ID g + 1 + 1 .. GPU_QUEUE_ID g + 1 + int n]"
    by (subst upto_rec1) (simp_all add: add.commute add.left_commute)
  show ?case
    unfolding enqueue_n.simps Suc.IH up
    by (simp add: get_gpu_queue_id_def Let_def add.commute add.left_commute)
qed

text \<open>
  Claim C5, as stated, fails. Call 0 loads the counter (line 132), call 1 then enqueues
  completely and gets ticket 0, and call 0 stores the value it had loaded plus one, appends
  and reads: after the two enqueue operations both calls hold ticket 0, the queue is
  \<open>[0, 0]\<close> and the counter is 0.
\<close>

theorem duplicate_ticket_counterexample:
  "enqueue_order lost_update two_calls = [1, 0]
   \<and> map pc (calls (run lost_update two_calls)) = [L56, L56]
   \<and> map gpu_queue_id (calls (run lost_update two_calls)) = [0, 0]
   \<and> globals (run lost_update two_calls) =
       \<lparr>GPU_DEVICE_BUSY = False, GPU_QUEUE = [0, 0], GPU_QUEUE_ID = 0\<rparr>"
  by (simp add: lost_update_def two_calls_def sys_simps)

text \<open>
  Claim C5, amended. A sequence of \<open>n\<close> enqueue operations, run one after the other
  from any state, returns the identifiers \<open>GPU_QUEUE_ID + 1, ..., GPU_QUEUE_ID + n\<close> in
  this order: each one is the previous one plus one and greater than every identifier
  issued before, they are pairwise distinct, and they are appended to the tail of the
  queue in the order of issue. In every execution from the initial state in which every
  call runs the steps of \<^verbatim>\<open>get_gpu_queue_id\<close> back to back, with no step of another
  call in between, the tickets of the calls, in the order of their enqueue, are
  \<open>0, 1, 2, ...\<close> up to the counter.
\<close>

theorem enqueue_ids_increasing:
  "fst (enqueue_n n g) = [GPU_QUEUE_ID g + 1 .. GPU_QUEUE_ID g + int n]
   \<and> sorted_wrt (<) (fst (enqueue_n n g))
   \<and> distinct (fst (enqueue_n n g))
   \<and> GPU_QUEUE (snd (enqueue_n n g)) = GPU_QUEUE g @ fst (enqueue_n n g)
   \<and> GPU_QUEUE_ID (snd (enqueue_n n g)) = GPU_QUEUE_ID g + int n
   \<and> GPU_DEVICE_BUSY (snd (enqueue_n n g)) = GPU_DEVICE_BUSY g
   \<and> (enqueue_atomic sched (init_system cs) \<longrightarrow>
        map (ticket (run sched (init_system cs))) (enqueue_order sched (init_system cs))
          = [0 .. int (length (enqueue_order sched (init_system cs))) - 1]
        \<and> GPU_QUEUE_ID (globals (run sched (init_system cs)))
          = int (length (enqueue_order sched (init_system cs))) - 1)"
proof -
  have "map (ticket (run sched (init_system cs))) (enqueue_order sched (init_system cs))
          = [0 .. int (length (enqueue_order sched (init_system cs))) - 1]
        \<and> GPU_QUEUE_ID (globals (run sched (init_system cs)))
          = int (length (enqueue_order sched (init_system cs))) - 1"
    if ea: "enqueue_atomic sched (init_system cs)"
  proof -
    let ?s = "run sched (init_system cs)" and ?E = "enqueue_order sched (init_system cs)"
    have "hist ?s ?E (map fst (acquisitions sched (init_system cs)))"
      using atomic_run [OF ea inv_init hist_init] by simp
    then have m: "map (ticket ?s) ?E = [0 .. GPU_QUEUE_ID (globals ?s)]"
      and lo: "- 1 \<le> GPU_QUEUE_ID (globals ?s)"
      by (simp_all add: hist_def)
    have "length (map (ticket ?s) ?E) = nat (GPU_QUEUE_ID (globals ?s) + 1)"
      unfolding m by simp
    then have "GPU_QUEUE_ID (globals ?s) = int (length ?E) - 1"
      using lo by simp
    then show ?thesis
      using m by simp
  qed
  then show ?thesis
    by (simp add: enqueue_n_eq)
qed

theorem enqueue_ids_increasing_witness:
  "enqueue_atomic orderly two_calls
   \<and> enqueue_order orderly two_calls = [0, 1]
   \<and> map (ticket (run orderly two_calls)) (enqueue_order orderly two_calls) = [0, 1]
   \<and> GPU_QUEUE_ID (globals (run orderly two_calls)) = 1
   \<and> fst (enqueue_n 2 init_globals) = [0, 1]"
proof -
  have h: "enqueue_atomic orderly (init_system [Raises, Raises])"
    by (simp add: orderly_def fresh_def sys_simps)
  have e: "enqueue_order orderly (init_system [Raises, Raises]) = [0, 1]"
    by (simp add: orderly_def sys_simps)
  have u: "[0 .. 1] = [0, 1::int]" "[0 .. int (length [0::nat, 1]) - 1] = [0, 1]"
    by (simp_all add: upto.simps)
  show ?thesis
    using h e enqueue_ids_increasing [of 2 init_globals orderly "[Raises, Raises]"]
    by (simp add: two_calls_def init_globals_def u)
qed

subsection \<open>Acquisition order\<close>

text \<open>
  Claim C4, as stated, fails. Call 0 runs line 132, call 1 then enqueues completely
  (ticket 1), and call 0 appends and reads the counter only afterwards: both calls hold
  ticket 1 and the queue is \<open>[1, 1]\<close>, the entry of call 1 first. Call 0 then passes the
  loop test and acquires while the earlier entry of call 1 is still in the queue, and
  call 1 acquires after it: the acquisition order \<open>[0, 1]\<close> is not the enqueue order
  \<open>[1, 0]\<close>.
\<close>

theorem fifo_counterexample:
  "enqueue_order overtaking two_calls = [1, 0]
   \<and> acquisitions overtaking two_calls = [(0, 1, [1, 1]), (1, 1, [1])]
   \<and> \<not> subseq (map fst (acquisitions overtaking two_calls)) (enqueue_order overtaking two_calls)
   \<and> \<not> list_all at_head (acquisitions overtaking two_calls)"
proof -
  have e: "enqueue_order overtaking two_calls = [1, 0]"
    by (simp add: overtaking_def two_calls_def sys_simps)
  have a: "acquisitions overtaking two_calls = [(0, 1, [1, 1]), (1, 1, [1])]"
    by (simp add: overtaking_def two_calls_def sys_simps)
  show ?thesis
    unfolding e a by (simp add: subseq_Cons2_iff)
qed

text \<open>
  Claim C4, amended. In every execution from the initial state in which the enqueue
  operations of different calls do not interleave, the calls acquire the device in the
  order in which they enqueued (the acquisition order is a subsequence of the enqueue
  order), and at every acquisition the acquiring ticket is the head of the queue and every
  other ticket in the queue is greater: no call acquires while an earlier ticket is still
  in the queue.
\<close>

theorem fifo_acquisition:
  assumes "enqueue_atomic sched (init_system cs)"
  shows "subseq (map fst (acquisitions sched (init_system cs))) (enqueue_order sched (init_system cs))
       \<and> list_all at_head (acquisitions sched (init_system cs))"
proof -
  have *: "hist (run sched (init_system cs)) (enqueue_order sched (init_system cs))
             (map fst (acquisitions sched (init_system cs)))"
    and **: "list_all at_head (acquisitions sched (init_system cs))"
    using atomic_run [OF assms inv_init hist_init] by simp_all
  have "subseq (map fst (acquisitions sched (init_system cs))) (enqueue_order sched (init_system cs))"
    using * unfolding hist_def by (intro subseq_by_ticket [of "ticket (run sched (init_system cs))"]) simp_all
  then show ?thesis using ** by simp
qed

theorem fifo_acquisition_witness:
  "enqueue_atomic orderly two_calls
   \<and> enqueue_order orderly two_calls = [0, 1]
   \<and> acquisitions orderly two_calls = [(0, 0, [0, 1]), (1, 1, [1])]
   \<and> subseq (map fst (acquisitions orderly two_calls)) (enqueue_order orderly two_calls)
   \<and> list_all at_head (acquisitions orderly two_calls)"
proof -
  have h: "enqueue_atomic orderly (init_system [Raises, Raises])"
    by (simp add: orderly_def fresh_def sys_simps)
  have e: "enqueue_order orderly two_calls = [0, 1]"
    by (simp add: orderly_def two_calls_def sys_simps)
  have a: "acquisitions orderly two_calls = [(0, 0, [0, 1]), (1, 1, [1])]"
    by (simp add: orderly_def two_calls_def sys_simps)
  show ?thesis
    using h e a fifo_acquisition [OF h] by (simp add: two_calls_def)
qed

subsection \<open>Queue accesses\<close>

text \<open>
  Claim C10, as stated, fails, in two ways. With interleaved enqueue operations two
  calls read the same ticket 1 while the queue is \<open>[1, 0]\<close>; call 0 acquires, fails and
  removes ticket 1 in the handler; call 1 has passed its loop test before that, fails in
  turn, finds ticket 0 at the head of the queue and calls \<^verbatim>\<open>remove_from_queue\<close> (line
  123) with its ticket 1, which is no longer in the queue: \<^verbatim>\<open>ValueError\<close> leaves the
  handler. And a single call whose result has a number where \<^verbatim>\<open>Output\<close> has a string
  field releases the device, raises in line 114 and reads \<^verbatim>\<open>GPU_QUEUE[0]\<close> in the
  handler with an empty queue: \<^verbatim>\<open>IndexError\<close> leaves the handler.
\<close>

theorem queue_access_counterexample:
  "list_all accepted [Raises, Raises]
   \<and> \<not> accesses_ok shared_ticket two_calls
   \<and> map pc (calls (run shared_ticket two_calls)) = [H153, Propagated ValueError]
   \<and> enqueue_atomic alone (init_system [Returns (Some mistyped)])
   \<and> \<not> accesses_ok alone (init_system [Returns (Some mistyped)])
   \<and> reply (forecast_alone (Returns (Some mistyped)) init_globals)
       = (Propagated IndexError, fresh_context)
   \<and> globals (forecast_alone (Returns (Some mistyped)) init_globals)
       = \<lparr>GPU_DEVICE_BUSY = False, GPU_QUEUE = [], GPU_QUEUE_ID = 0\<rparr>"
proof -
  have a: "list_all accepted [Raises, Raises]"
    by (simp add: accepted_def)
  have b: "\<not> accesses_ok shared_ticket two_calls"
    by (simp add: shared_ticket_def two_calls_def access_ok_def sys_simps)
  have c: "map pc (calls (run shared_ticket two_calls)) = [H153, Propagated ValueError]"
    by (simp add: shared_ticket_def two_calls_def sys_simps)
  have d: "enqueue_atomic alone (init_system [Returns (Some mistyped)])"
    by (simp add: alone_def fresh_def mistyped_def sys_simps error_msg_def result_keys_def
        Output_new_def Output_init_def fits_string_def)
  have e: "\<not> accesses_ok alone (init_system [Returns (Some mistyped)])"
    by (simp add: alone_def access_ok_def mistyped_def sys_simps error_msg_def result_keys_def
        Output_new_def Output_init_def fits_string_def)
  have f: "forecast_alone (Returns (Some mistyped)) init_globals =
      \<lparr>globals = \<lparr>GPU_DEVICE_BUSY = False, GPU_QUEUE = [], GPU_QUEUE_ID = 0\<rparr>,
       calls = [\<lparr>pc = Propagated IndexError, gpu_queue_id = 0, count = 0, loaded = 0,
                 response = Some mistyped, grpc_context = fresh_context,
                 computation = Returns (Some mistyped)\<rparr>]\<rparr>"
    by (simp add: forecast_alone_def alone_def mistyped_def sys_simps error_msg_def
        result_keys_def Output_new_def Output_init_def fits_string_def)
  show ?thesis
    using a b c d e by (simp add: f reply_def)
qed

text \<open>
  Claim C10, amended. In every execution from the initial state in which the enqueue
  operations of different calls do not interleave and every result is accepted by the
  constructor of \<^verbatim>\<open>Output\<close>, the call's own ticket is in the queue whenever the call
  reads \<^verbatim>\<open>GPU_QUEUE[0]\<close> (lines 56, 59 and 120) and whenever it calls
  \<^verbatim>\<open>GPU_QUEUE.remove\<close> (line 152, line 123): the head indexing never fails, the removal
  never raises, and no call ends with an exception leaving the handler.
\<close>

theorem queue_accesses_safe:
  assumes "enqueue_atomic sched (init_system cs)" and "list_all accepted cs"
  shows "accesses_ok sched (init_system cs)
       \<and> list_all (\<lambda>f. \<not> raised f) (calls (run sched (init_system cs)))"
proof -
  have a: "accesses_ok sched (init_system cs)" and t: "typed (run sched (init_system cs))"
    using atomic_run [OF assms(1) inv_init hist_init] typed_init [OF assms(2)] by simp_all
  have "\<not> raised f" if mem: "f \<in> set (calls (run sched (init_system cs)))" for f
  proof -
    obtain i where "i < length (calls (run sched (init_system cs)))"
      "calls (run sched (init_system cs)) ! i = f"
      using mem by (auto simp: in_set_conv_nth)
    then have "typed_frame (globals (run sched (init_system cs))) f"
      using t by (auto simp: typed_def)
    then show ?thesis
      by (cases "pc f") (simp_all add: raised_def typed_frame_def)
  qed
  then show ?thesis
    using a by (simp add: list_all_iff)
qed

theorem queue_accesses_safe_witness:
  "enqueue_atomic orderly two_calls \<and> list_all accepted [Raises, Raises]
   \<and> accesses_ok orderly two_calls
   \<and> map pc (calls (run orderly two_calls)) = [Returned Output_fail, L120]"
proof -
  have h: "enqueue_atomic orderly (init_system [Raises, Raises])"
    by (simp add: orderly_def fresh_def sys_simps)
  have a: "list_all accepted [Raises, Raises]"
    by (simp add: accepted_def)
  have p: "map pc (calls (run orderly two_calls)) = [Returned Output_fail, L120]"
    by (simp add: orderly_def two_calls_def sys_simps)
  show ?thesis
    using h a p queue_accesses_safe [OF h a] by (simp add: two_calls_def)
qed

subsection \<open>Mutual exclusion\<close>

lemma holds_flag [simp]: "holds (g\<lparr>GPU_DEVICE_BUSY := b\<rparr>) f = holds g f"
  by (simp add: holds_def queue_head_def)

lemma crit_flag [simp]: "crit (g\<lparr>GPU_DEVICE_BUSY := b\<rparr>) f = crit g f"
  by (simp add: crit_def)

lemma holds_crit: "holds g f \<Longrightarrow> crit g f"
  by (simp add: crit_def)

lemma crit_remove:
  assumes "frame_ok g f" and "crit (g\<lparr>GPU_QUEUE := remove1 t (GPU_QUEUE g)\<rparr>) f"
  shows "crit g f"
proof (cases "pc f = L120")
  case False
  then show ?thesis using assms(2) by (simp add: crit_def holds_def)
next
  case True
  have "queue_head (g\<lparr>GPU_QUEUE := remove1 t (GPU_QUEUE g)\<rparr>) = Inr (gpu_queue_id f)"
    using assms(2) True by (simp add: crit_def holds_def)
  then have "gpu_queue_id f \<in> set (remove1 t (GPU_QUEUE g))"
    using queue_head_mem by fastforce
  then have "gpu_queue_id f \<in> set (GPU_QUEUE g)"
    using notin_set_remove1 by fast
  then show ?thesis
    using assms(1) True by (simp add: frame_ok_def crit_def holds_def)
qed

lemma holds_enqueue:
  assumes "frame_ok g f"
  shows "holds (g\<lparr>GPU_QUEUE_ID := GPU_QUEUE_ID g + 1,
                 GPU_QUEUE := GPU_QUEUE g @ [GPU_QUEUE_ID g + 1]\<rparr>) f = holds g f"
proof (cases "pc f = L120")
  case False
  then show ?thesis by (simp add: holds_def)
next
  case True
  then have "gpu_queue_id f \<le> GPU_QUEUE_ID g"
    using assms by (simp add: frame_ok_def)
  then show ?thesis
    using True by (cases "GPU_QUEUE g") (auto simp: holds_def queue_head_def)
qed

lemma not_leaking:
  assumes "response_ok f" and "pc f = L97" and "\<not> leaks (computation f)"
    and "error_msg (response f) = Some m"
  shows "set_details m c = Inl AttributeError"
  using assms by (cases m) (simp_all add: response_ok_def leaks_def set_details_def)

lemma exec_excl:
  assumes ok: "frame_ok g f" and nf: "pc f \<noteq> L132" and nt: "pc f \<noteq> L56h"
    and nb: "pc f = L56 \<longrightarrow> GPU_DEVICE_BUSY g"
    and nl: "\<not> leaks (computation f)" and ro: "response_ok f"
    and ex: "exec f g = (f', g')"
  shows "pc f' \<noteq> L56h \<and>
     (\<not> crit g f \<and> \<not> crit g f' \<and> g' = g
      \<or> pc f = L67 \<and> pc f' = L70 \<and> g' = g\<lparr>GPU_DEVICE_BUSY := True\<rparr>
      \<or> holds g f \<and> holds g f' \<and> g' = g
      \<or> holds g f \<and> (pc f' = L153 \<or> pc f' = H153)
        \<and> g' = g\<lparr>GPU_QUEUE := remove1 (gpu_queue_id f) (GPU_QUEUE g)\<rparr>
      \<or> (pc f = L153 \<or> pc f = H153) \<and> (pc f' = L114 \<or> pc f' = L124)
        \<and> g' = g\<lparr>GPU_DEVICE_BUSY := False\<rparr>)"
proof (cases "pc f")
  case L56
  then show ?thesis using nb ex
    by (auto simp: exec_def crit_def holds_def)
next
  case L57
  then show ?thesis using ok ex queue_head_nonempty [of "gpu_queue_id f" g]
    by (auto simp: exec_def frame_ok_def Let_def crit_def holds_def split: if_splits)
next
  case L67
  then show ?thesis using ex
    by (auto simp: exec_def acquire_gpu_def)
next
  case L70
  then show ?thesis using ok ex
    by (auto simp: exec_def frame_ok_def holds_def split: computation.splits)
next
  case L97
  then show ?thesis using ok ex not_leaking [OF ro L97 nl]
    by (auto simp: exec_def frame_ok_def holds_def split: option.splits sum.splits)
next
  case L104
  then show ?thesis using ok ex
    by (auto simp: exec_def frame_ok_def holds_def split: sum.splits)
next
  case L152
  then show ?thesis using ok ex
    by (auto simp: exec_def frame_ok_def holds_def remove_from_queue_def)
next
  case L153
  then show ?thesis using ex
    by (auto simp: exec_def)
next
  case L114
  then show ?thesis using ok ex queue_head_mem [of g "gpu_queue_id f"]
    by (auto simp: exec_def frame_ok_def crit_def holds_def split: sum.splits)
next
  case L120
  then show ?thesis using ok ex
    by (auto simp: exec_def frame_ok_def crit_def holds_def split: sum.splits if_splits)
next
  case H152
  then show ?thesis using ok ex
    by (auto simp: exec_def frame_ok_def holds_def remove_from_queue_def)
next
  case H153
  then show ?thesis using ex
    by (auto simp: exec_def)
next
  case L123
  then show ?thesis using ok ex
    by (auto simp: exec_def frame_ok_def crit_def holds_def remove_from_queue_def)
next
  case L124
  then show ?thesis using ex
    by (auto simp: exec_def crit_def holds_def)
next
  case (Returned out)
  then show ?thesis using ex
    by (auto simp: exec_def crit_def holds_def)
next
  case (Propagated e)
  then show ?thesis using ex
    by (auto simp: exec_def crit_def holds_def)
qed (use ok nf nt in \<open>simp_all add: frame_ok_def\<close>)

lemma exec_exclE [consumes 7, case_names idle acquire hold remove reset]:
  assumes "frame_ok g f" and "pc f \<noteq> L132" and "pc f \<noteq> L56h"
    and "pc f = L56 \<longrightarrow> GPU_DEVICE_BUSY g"
    and "\<not> leaks (computation f)" and "response_ok f"
    and "exec f g = (f', g')"
  obtains
      (idle) "\<not> crit g f" "\<not> crit g f'" "g' = g"
    | (acquire) "pc f = L67" "pc f' = L70" "g' = g\<lparr>GPU_DEVICE_BUSY := True\<rparr>"
    | (hold) "holds g f" "holds g f'" "g' = g"
    | (remove) "holds g f" "pc f' = L153 \<or> pc f' = H153"
        "g' = g\<lparr>GPU_QUEUE := remove1 (gpu_queue_id f) (GPU_QUEUE g)\<rparr>"
    | (reset) "pc f = L153 \<or> pc f = H153" "pc f' = L114 \<or> pc f' = L124"
        "g' = g\<lparr>GPU_DEVICE_BUSY := False\<rparr>"
  using exec_excl [OF assms] by (elim conjE disjE) (blast intro: that)+

lemma excl_updateI:
  assumes X: "excl s" and i: "i < length (calls s)"
    and others: "\<And>j. j < length (calls s) \<Longrightarrow> j \<noteq> i \<Longrightarrow> crit g' (calls s ! j) \<Longrightarrow>
                   crit (globals s) (calls s ! j)"
    and new: "\<And>j. j < length (calls s) \<Longrightarrow> j \<noteq> i \<Longrightarrow> crit g' f' \<Longrightarrow>
                \<not> crit (globals s) (calls s ! i) \<Longrightarrow> \<not> crit (globals s) (calls s ! j)"
    and hb: "\<And>k. k < length (calls s) \<Longrightarrow> holds g' ((calls s)[i := f'] ! k) \<Longrightarrow>
               GPU_DEVICE_BUSY g'"
    and bh: "GPU_DEVICE_BUSY g' \<Longrightarrow> \<exists>k < length (calls s). holds g' ((calls s)[i := f'] ! k)"
    and fr: "pc f' \<noteq> L56h" "\<not> leaks (computation f')" "response_ok f'"
  shows "excl \<lparr>globals = g', calls = (calls s)[i := f']\<rparr>"
proof -
  let ?cs = "(calls s)[i := f']"
  have old: "\<forall>k < length (calls s). \<forall>j < length (calls s).
        crit (globals s) (calls s ! k) \<and> crit (globals s) (calls s ! j) \<longrightarrow> k = j"
    using X by (simp add: excl_def)
  have a: "\<forall>k < length ?cs. pc (?cs ! k) \<noteq> L56h"
    using X fr(1) i by (auto simp: excl_def nth_list_update)
  have d: "\<forall>k < length ?cs. \<not> leaks (computation (?cs ! k)) \<and> response_ok (?cs ! k)"
    using X fr(2,3) i by (auto simp: excl_def nth_list_update)
  have b: "\<forall>k < length ?cs. \<forall>j < length ?cs. crit g' (?cs ! k) \<and> crit g' (?cs ! j) \<longrightarrow> k = j"
  proof (intro allI impI)
    fix k j
    assume k: "k < length ?cs" and j: "j < length ?cs"
      and h: "crit g' (?cs ! k) \<and> crit g' (?cs ! j)"
    have one: "False" if m: "m < length (calls s)" "m \<noteq> i" "crit g' (calls s ! m)" "crit g' f'" for m
    proof -
      have cm: "crit (globals s) (calls s ! m)"
        using others m by blast
      show False
      proof (cases "crit (globals s) (calls s ! i)")
        case True
        then show ?thesis using old cm m i by blast
      next
        case False
        then show ?thesis using new m cm by blast
      qed
    qed
    show "k = j"
    proof (cases "k = i")
      case True
      show ?thesis
      proof (cases "j = i")
        case True
        then show ?thesis using \<open>k = i\<close> by simp
      next
        case False
        then show ?thesis using one [of j] j h i True by (auto simp: nth_list_update)
      qed
    next
      case False
      show ?thesis
      proof (cases "j = i")
        case True
        then show ?thesis using one [of k] k h i False by (auto simp: nth_list_update)
      next
        case jf: False
        then show ?thesis using old others k j h False by (auto simp: nth_list_update)
      qed
    qed
  qed
  show ?thesis
    unfolding excl_def using a b d hb bh by simp
qed

lemma excl_step:
  assumes I: "inv s" and X: "excl s" and i: "i < length (calls s)"
    and nf: "pc (calls s ! i) \<noteq> L132" and nt: "\<not> testing i s"
  shows "excl (step i s)"
proof -
  define g where "g = globals s"
  define f where "f = calls s ! i"
  obtain f' g' where ex: "exec f g = (f', g')"
    by fastforce
  have st: "step i s = \<lparr>globals = g', calls = (calls s)[i := f']\<rparr>"
    using i ex by (simp add: step_def f_def g_def)
  have ok: "frame_ok g (calls s ! j)" if "j < length (calls s)" for j
    using I that by (simp add: inv_def g_def)
  have okf: "frame_ok g f"
    using ok i by (simp add: f_def)
  have nff: "pc f \<noteq> L132" and nth: "pc f \<noteq> L56h"
    and nb: "pc f = L56 \<longrightarrow> GPU_DEVICE_BUSY g"
    and nl: "\<not> leaks (computation f)" and ro: "response_ok f"
    using nf nt X i by (simp_all add: f_def g_def testing_def excl_def)
  have uniq: "\<not> crit g (calls s ! j)" if "j < length (calls s)" "j \<noteq> i" "crit g f" for j
    using X i that unfolding excl_def f_def g_def by blast
  have hb: "GPU_DEVICE_BUSY g" if "j < length (calls s)" "holds g (calls s ! j)" for j
    using X that by (simp add: excl_def g_def)
  have bh: "\<exists>k < length (calls s). holds g (calls s ! k)" if "GPU_DEVICE_BUSY g"
    using X that by (simp add: excl_def g_def)
  have fr: "pc f' \<noteq> L56h" "\<not> leaks (computation f')" "response_ok f'"
    using exec_excl [OF okf nff nth nb nl ro ex] exec_response [OF ro ex] nl by simp_all
  have keep: "\<exists>k < length (calls s). holds g ((calls s)[i := f'] ! k)"
    if b: "GPU_DEVICE_BUSY g" and h: "holds g f \<Longrightarrow> holds g f'"
  proof -
    obtain k where k: "k < length (calls s)" "holds g (calls s ! k)"
      using bh b by blast
    show ?thesis
    proof (cases "k = i")
      case True
      then have "holds g ((calls s)[i := f'] ! i)" using k h i by (simp add: f_def)
      then show ?thesis using i by blast
    next
      case False
      then have "holds g ((calls s)[i := f'] ! k)" using k by simp
      then show ?thesis using k by blast
    qed
  qed
  note upd = excl_updateI [OF X i _ _ _ _ fr, folded g_def f_def]
  from okf nff nth nb nl ro ex
  have "excl \<lparr>globals = g', calls = (calls s)[i := f']\<rparr>"
  proof (cases rule: exec_exclE)
    case idle
    show ?thesis
    proof (rule upd)
      show "GPU_DEVICE_BUSY g'" if "k < length (calls s)" "holds g' ((calls s)[i := f'] ! k)" for k
        using that idle hb [of k] i by (cases "k = i") (auto simp: crit_def)
      show "\<exists>k<length (calls s). holds g' ((calls s)[i := f'] ! k)" if "GPU_DEVICE_BUSY g'"
        using keep that idle by (simp add: crit_def)
    qed (use idle in simp_all)
  next
    case acquire
    show ?thesis
    proof (rule upd)
      show "\<exists>k<length (calls s). holds g' ((calls s)[i := f'] ! k)"
        using i acquire by (auto simp: holds_def intro!: exI [of _ i])
    qed (use acquire in \<open>simp_all add: crit_def\<close>)
  next
    case hold
    show ?thesis
    proof (rule upd)
      show "GPU_DEVICE_BUSY g'" for k
        using hold hb [OF i] by (simp add: f_def)
      show "\<exists>k<length (calls s). holds g' ((calls s)[i := f'] ! k)"
        using i hold by (auto intro!: exI [of _ i])
    qed (use hold in \<open>simp_all add: crit_def\<close>)
  next
    case remove
    show ?thesis
    proof (rule upd)
      show "crit g (calls s ! j)" if "j < length (calls s)" "crit g' (calls s ! j)" for j
        using crit_remove [OF ok [OF that(1)]] that(2) remove by simp
      show "GPU_DEVICE_BUSY g'"
        using remove hb [OF i] by (simp add: f_def)
      show "\<exists>k<length (calls s). holds g' ((calls s)[i := f'] ! k)"
        using i remove by (auto simp: holds_def intro!: exI [of _ i])
    qed (use remove in \<open>simp_all add: crit_def\<close>)
  next
    case reset
    have cf: "crit g f"
      using reset by (auto simp: crit_def holds_def)
    show ?thesis
    proof (rule upd)
      show "GPU_DEVICE_BUSY g'" if k: "k < length (calls s)" "holds g' ((calls s)[i := f'] ! k)" for k
      proof (cases "k = i")
        case True
        then show ?thesis using k i reset by (auto simp: holds_def)
      next
        case False
        then have "crit g (calls s ! k)" using k reset by (simp add: crit_def)
        then show ?thesis using uniq [OF k(1) False cf] by simp
      qed
    qed (use reset cf in \<open>simp_all\<close>)
  qed
  then show ?thesis
    by (simp add: st)
qed

lemma run_test:
  assumes t: "testing i s" and ok: "frame_ok (globals s) (calls s ! i)"
  shows "run [i, i] s =
     \<lparr>globals = globals s,
      calls = (calls s)[i := (calls s ! i)\<lparr>pc :=
        (if queue_head (globals s) = Inr (gpu_queue_id (calls s ! i)) then L67 else L57)\<rparr>]\<rparr>"
proof -
  have "gpu_queue_id (calls s ! i) \<in> set (GPU_QUEUE (globals s))"
    using t ok by (simp add: testing_def frame_ok_def)
  then obtain h where "queue_head (globals s) = Inr h"
    using queue_head_nonempty by blast
  then show ?thesis
    using t by (auto simp: testing_def step_def exec_def)
qed

lemma excl_test:
  assumes I: "inv s" and X: "excl s" and t: "testing i s"
  shows "inv (run [i, i] s) \<and> excl (run [i, i] s)"
proof -
  have i: "i < length (calls s)" and p: "pc (calls s ! i) = L56"
    and nb: "\<not> GPU_DEVICE_BUSY (globals s)"
    using t by (simp_all add: testing_def)
  have ok: "frame_ok (globals s) (calls s ! j)" if "j < length (calls s)" for j
    using I that by (simp add: inv_def)
  have I1: "inv (step i s)"
    by (rule inv_step) (use I i p in simp_all)
  have p1: "i < length (calls (step i s))" "pc (calls (step i s) ! i) = L56h"
    using i p nb by (simp_all add: step_def exec_def)
  have I2: "inv (step i (step i s))"
    by (rule inv_step) (use I1 p1 in simp_all)
  define p' where "p' = (if queue_head (globals s) = Inr (gpu_queue_id (calls s ! i)) then L67 else L57)"
  have r: "run [i, i] s = \<lparr>globals = globals s, calls = (calls s)[i := (calls s ! i)\<lparr>pc := p'\<rparr>]\<rparr>"
    unfolding p'_def using t ok [OF i] by (rule run_test)
  have pp: "p' = L67 \<or> p' = L57"
    by (simp add: p'_def)
  have nh: "\<not> holds (globals s) (calls s ! j)" if "j < length (calls s)" for j
    using X nb that by (auto simp: excl_def)
  have "excl \<lparr>globals = globals s, calls = (calls s)[i := (calls s ! i)\<lparr>pc := p'\<rparr>]\<rparr>"
  proof (rule excl_updateI [OF X i])
    show "\<not> crit (globals s) (calls s ! j)"
      if j: "j < length (calls s)" "j \<noteq> i" and c: "crit (globals s) ((calls s ! i)\<lparr>pc := p'\<rparr>)" for j
    proof
      assume cj: "crit (globals s) (calls s ! j)"
      have "p' = L67"
        using c pp by (auto simp: crit_def holds_def)
      then have hd: "queue_head (globals s) = Inr (gpu_queue_id (calls s ! i))"
        by (simp add: p'_def split: if_splits)
      have pj: "pc (calls s ! j) = L67"
        using cj nh [OF j(1)] by (simp add: crit_def)
      then have "queue_head (globals s) = Inr (gpu_queue_id (calls s ! j))"
        using ok [OF j(1)] by (simp add: frame_ok_def)
      then have "gpu_queue_id (calls s ! j) = gpu_queue_id (calls s ! i)"
        using hd by simp
      then show False
        using inv_distinct [OF I i j] p pj by simp
    qed
    show "GPU_DEVICE_BUSY (globals s)"
      if "k < length (calls s)" "holds (globals s) ((calls s)[i := (calls s ! i)\<lparr>pc := p'\<rparr>] ! k)" for k
      using that nh [of k] pp i by (cases "k = i") (auto simp: holds_def)
    show "\<exists>k<length (calls s). holds (globals s) ((calls s)[i := (calls s ! i)\<lparr>pc := p'\<rparr>] ! k)"
      if "GPU_DEVICE_BUSY (globals s)"
      using that nb by simp
    show "pc ((calls s ! i)\<lparr>pc := p'\<rparr>) \<noteq> L56h"
      using pp by auto
    show "\<not> leaks (computation ((calls s ! i)\<lparr>pc := p'\<rparr>))"
      using X i by (simp add: excl_def)
    show "response_ok ((calls s ! i)\<lparr>pc := p'\<rparr>)"
      using pp by (auto simp: response_ok_def)
  qed simp
  then show ?thesis
    using I2 by (simp add: r [symmetric])
qed

lemma excl_enqueue:
  assumes I: "inv s" and X: "excl s" and fr: "fresh i s"
  shows "excl (run [i, i, i, i, i] s)"
proof -
  have i: "i < length (calls s)" and p: "pc (calls s ! i) = L132"
    using fr by (simp_all add: fresh_def)
  have ok: "frame_ok (globals s) (calls s ! j)" if "j < length (calls s)" for j
    using I that by (simp add: inv_def)
  let ?g = "(globals s)\<lparr>GPU_QUEUE_ID := GPU_QUEUE_ID (globals s) + 1,
            GPU_QUEUE := GPU_QUEUE (globals s) @ [GPU_QUEUE_ID (globals s) + 1]\<rparr>"
  let ?f = "(calls s ! i)\<lparr>loaded := GPU_QUEUE_ID (globals s) + 1, pc := L56,
            gpu_queue_id := GPU_QUEUE_ID (globals s) + 1, count := 0\<rparr>"
  have nf: "\<not> holds (globals s) (calls s ! i)"
    using p by (simp add: holds_def)
  show ?thesis
    unfolding run5_fresh [OF fr]
  proof (rule excl_updateI [OF X i])
    show "crit (globals s) (calls s ! j)" if "j < length (calls s)" "crit ?g (calls s ! j)" for j
      using that holds_enqueue [OF ok [OF that(1)]] by (simp add: crit_def)
    show "\<not> crit (globals s) (calls s ! j)" if "crit ?g ?f" for j
      using that by (simp add: crit_def holds_def)
    show "GPU_DEVICE_BUSY ?g" if k: "k < length (calls s)" "holds ?g ((calls s)[i := ?f] ! k)" for k
    proof (cases "k = i")
      case True
      then show ?thesis using k i by (simp add: holds_def)
    next
      case False
      then have "holds (globals s) (calls s ! k)"
        using k holds_enqueue [OF ok [OF k(1)]] by simp
      then show ?thesis using X k by (simp add: excl_def)
    qed
    show "\<exists>k<length (calls s). holds ?g ((calls s)[i := ?f] ! k)" if b: "GPU_DEVICE_BUSY ?g"
    proof -
      obtain k where k: "k < length (calls s)" "holds (globals s) (calls s ! k)"
        using X b by (auto simp: excl_def)
      then have "k \<noteq> i" using nf by auto
      then have "holds ?g ((calls s)[i := ?f] ! k)"
        using k holds_enqueue [OF ok [OF k(1)]] by simp
      then show ?thesis using k by blast
    qed
    show "pc ?f \<noteq> L56h" by simp
    show "\<not> leaks (computation ?f)" using X i by (simp add: excl_def)
    show "response_ok ?f" by (simp add: response_ok_def)
  qed
qed

lemma excl_run:
  "uninterrupted sched s \<Longrightarrow> inv s \<Longrightarrow> excl s \<Longrightarrow> inv (run sched s) \<and> excl (run sched s)"
proof (induction sched s rule: uninterrupted.induct)
  case (1 s)
  then show ?case by simp
next
  case (2 i sched s)
  show ?case
  proof (cases "fresh i s")
    case True
    define rest where "rest = drop 4 sched"
    have tk: "take 4 sched = [i, i, i, i]"
      and ea: "uninterrupted rest (run [i, i, i, i, i] s)"
      using "2.prems"(1) True by (simp_all add: rest_def)
    have sched: "sched = i # i # i # i # rest"
      using tk append_take_drop_id [of 4 sched] by (simp add: rest_def)
    have I': "inv (run [i, i, i, i, i] s)"
      using "2.prems"(2) True by (rule inv_enqueue)
    have X': "excl (run [i, i, i, i, i] s)"
      using "2.prems"(2,3) True by (rule excl_enqueue)
    have r: "run (i # sched) s = run rest (run [i, i, i, i, i] s)"
      by (simp add: sched)
    show ?thesis
      unfolding r using "2.IH"(1) [OF True, folded rest_def, OF ea I' X'] .
  next
    case nfr: False
    show ?thesis
    proof (cases "testing i s")
      case True
      define rest where "rest = drop 1 sched"
      have tk: "take 1 sched = [i]" and ea: "uninterrupted rest (run [i, i] s)"
        using "2.prems"(1) nfr True by (simp_all add: rest_def)
      have sched: "sched = i # rest"
        using tk append_take_drop_id [of 1 sched] by (simp add: rest_def)
      have IX: "inv (run [i, i] s)" "excl (run [i, i] s)"
        using excl_test [OF "2.prems"(2,3) True] by simp_all
      have r: "run (i # sched) s = run rest (run [i, i] s)"
        by (simp add: sched)
      show ?thesis
        unfolding r using "2.IH"(2) [OF nfr True, folded rest_def, OF ea IX] .
    next
      case False
      have ea: "uninterrupted sched (step i s)"
        using "2.prems"(1) nfr False by simp
      show ?thesis
      proof (cases "i < length (calls s)")
        case out: False
        have st: "step i s = s" using out by (rule step_outside)
        have "inv (step i s)" "excl (step i s)"
          using "2.prems"(2,3) by (simp_all add: st)
        from "2.IH"(3) [OF nfr False ea this] show ?thesis by simp
      next
        case True
        have nf: "pc (calls s ! i) \<noteq> L132"
          using nfr True by (simp add: fresh_def)
        have I': "inv (step i s)"
          using "2.prems"(2) True nf by (rule inv_step)
        have X': "excl (step i s)"
          using "2.prems"(2,3) True nf False by (rule excl_step)
        from "2.IH"(3) [OF nfr False ea I' X'] show ?thesis by simp
      qed
    qed
  qed
qed

lemma filter_at_most_one:
  assumes "\<forall>i < length xs. \<forall>j < length xs. P (xs ! i) \<and> P (xs ! j) \<longrightarrow> i = j"
  shows "length (filter P xs) \<le> 1"
  using assms
proof (induction xs)
  case Nil
  then show ?case by simp
next
  case (Cons x xs)
  have tl: "\<forall>i < length xs. \<forall>j < length xs. P (xs ! i) \<and> P (xs ! j) \<longrightarrow> i = j"
  proof (intro allI impI)
    fix i j assume "i < length xs" "j < length xs" "P (xs ! i) \<and> P (xs ! j)"
    then have "Suc i = Suc j" using Cons.prems [rule_format, of "Suc i" "Suc j"] by simp
    then show "i = j" by simp
  qed
  show ?case
  proof (cases "P x")
    case False
    then show ?thesis using Cons.IH [OF tl] by simp
  next
    case True
    have "\<not> P y" if mem: "y \<in> set xs" for y
    proof
      assume py: "P y"
      obtain j where "j < length xs" "xs ! j = y"
        using mem by (auto simp: in_set_conv_nth)
      then have "0 = Suc j" using Cons.prems [rule_format, of 0 "Suc j"] True py by simp
      then show False by simp
    qed
    then have "filter P xs = []" by (simp add: filter_empty_conv)
    then show ?thesis using True by simp
  qed
qed

lemma excl_holders:
  assumes I: "inv s" and X: "excl s"
  shows "GPU_DEVICE_BUSY (globals s) = (holders s \<noteq> [])"
    and "length (holders s) \<le> 1"
    and "list_all (at_head_or_releasing (globals s)) (holders s)"
proof -
  have "\<forall>i < length (calls s). \<forall>j < length (calls s).
          holds (globals s) (calls s ! i) \<and> holds (globals s) (calls s ! j) \<longrightarrow> i = j"
    using X holds_crit unfolding excl_def by blast
  then show "length (holders s) \<le> 1"
    unfolding holders_def by (rule filter_at_most_one)
  have ok: "frame_ok (globals s) f" if "f \<in> set (calls s)" for f
    using I that by (auto simp: inv_def in_set_conv_nth)
  have each: "at_head_or_releasing (globals s) f"
    if "f \<in> set (calls s)" "holds (globals s) f" for f
    using ok [OF that(1)] that(2)
    by (cases "pc f") (simp_all add: holds_def frame_ok_def at_head_or_releasing_def)
  show "list_all (at_head_or_releasing (globals s)) (holders s)"
    using each by (auto simp: holders_def list_all_iff)
  have a: "holders s \<noteq> []" if "GPU_DEVICE_BUSY (globals s)"
    using X that by (auto simp: excl_def holders_def filter_empty_conv)
  have b: "GPU_DEVICE_BUSY (globals s)" if ne: "holders s \<noteq> []"
  proof -
    obtain f where "f \<in> set (calls s)" "holds (globals s) f"
      using ne by (auto simp: holders_def filter_empty_conv)
    then show ?thesis using X by (auto simp: excl_def in_set_conv_nth)
  qed
  show "GPU_DEVICE_BUSY (globals s) = (holders s \<noteq> [])"
    using a b by blast
qed

lemma excl_init: "list_all (\<lambda>c. \<not> leaks c) cs \<Longrightarrow> excl (init_system cs)"
  by (simp add: excl_def init_system_def init_globals_def new_call_def list_all_length
      crit_def holds_def response_ok_def)

subsection \<open>The busy flag and the holder\<close>

text \<open>
  Claim C7, as stated, fails, in three ways. With interleaved enqueue operations both
  calls hold ticket 1, both find the flag free and ticket 1 at the head, and both acquire:
  two calls are inside their computation (line 70) at the same time. With enqueue
  operations that do not interleave, call 1 reads the flag in its loop test while it is
  still false and the head of the queue only after call 0 has acquired, failed and removed
  its ticket in the handler: call 1 acquires while call 0 is between the two statements
  of \<^verbatim>\<open>release_gpu\<close>, and one step later call 0 resets the flag while call 1 holds the
  device. And a single call whose computation reports an error returns from line 102 and
  leaves the flag set while no call holds the device.
\<close>

theorem two_holders_counterexample:
  "map pc (holders (run both_pass two_calls)) = [L70, L70]
   \<and> GPU_QUEUE (globals (run both_pass two_calls)) = [1, 1]
   \<and> enqueue_atomic torn_test two_calls
   \<and> map pc (holders (run torn_test two_calls)) = [H153, L70]
   \<and> map pc (holders (run (torn_test @ [0]) two_calls)) = [L70]
   \<and> \<not> GPU_DEVICE_BUSY (globals (run (torn_test @ [0]) two_calls))
   \<and> GPU_DEVICE_BUSY
        (globals (forecast_alone (Returns (Some [(''error'', PyStr ''no data'')])) init_globals))
   \<and> holders (forecast_alone (Returns (Some [(''error'', PyStr ''no data'')])) init_globals)
       = []"
proof -
  have e: "forecast_alone (Returns (Some [(''error'', PyStr ''no data'')])) init_globals =
      \<lparr>globals = \<lparr>GPU_DEVICE_BUSY = True, GPU_QUEUE = [0], GPU_QUEUE_ID = 0\<rparr>,
       calls = [\<lparr>pc = Returned Output_default, gpu_queue_id = 0, count = 0, loaded = 0,
                 response = Some [(''error'', PyStr ''no data'')],
                 grpc_context = \<lparr>details = Some (PyStr ''no data''), code = Some INTERNAL\<rparr>,
                 computation = Returns (Some [(''error'', PyStr ''no data'')])\<rparr>]\<rparr>"
    by (simp add: forecast_alone_def alone_def sys_simps error_msg_def)
  have a: "run both_pass two_calls =
      \<lparr>globals = \<lparr>GPU_DEVICE_BUSY = True, GPU_QUEUE = [1, 1], GPU_QUEUE_ID = 1\<rparr>,
       calls = [(new_call Raises)\<lparr>pc := L70, gpu_queue_id := 1, loaded := 1\<rparr>,
                (new_call Raises)\<lparr>pc := L70, gpu_queue_id := 1, loaded := 1\<rparr>]\<rparr>"
    by (simp add: both_pass_def two_calls_def sys_simps)
  have b: "enqueue_atomic torn_test two_calls"
    by (simp add: torn_test_def two_calls_def fresh_def sys_simps)
  have c: "run torn_test two_calls =
      \<lparr>globals = \<lparr>GPU_DEVICE_BUSY = True, GPU_QUEUE = [1], GPU_QUEUE_ID = 1\<rparr>,
       calls = [(new_call Raises)\<lparr>pc := H153, gpu_queue_id := 0, loaded := 0\<rparr>,
                (new_call Raises)\<lparr>pc := L70, gpu_queue_id := 1, loaded := 1\<rparr>]\<rparr>"
    by (simp add: torn_test_def two_calls_def sys_simps)
  have d: "run (torn_test @ [0]) two_calls =
      \<lparr>globals = \<lparr>GPU_DEVICE_BUSY = False, GPU_QUEUE = [1], GPU_QUEUE_ID = 1\<rparr>,
       calls = [(new_call Raises)\<lparr>pc := L124, gpu_queue_id := 0, loaded := 0\<rparr>,
                (new_call Raises)\<lparr>pc := L70, gpu_queue_id := 1, loaded := 1\<rparr>]\<rparr>"
    unfolding run_append c by (simp add: sys_simps)
  show ?thesis
    unfolding a c d e using b by (simp add: holders_def holds_def new_call_def)
qed

text \<open>
  Claim C7, amended. In every state reached from the initial state by an execution in
  which every call runs the steps of \<^verbatim>\<open>get_gpu_queue_id\<close> back to back and the two
  reads of a loop test back to back, with no step of another call in between and none of
  them left unfinished, and in which no computation ends in the failure return of lines
  97--102: the flag is set if and only if some call holds the device, at most one call
  holds it, and the holder's ticket is the head of the queue until its release has removed
  it.
\<close>

theorem single_holder:
  assumes "uninterrupted sched (init_system cs)" and "list_all (\<lambda>c. \<not> leaks c) cs"
  shows "GPU_DEVICE_BUSY (globals (run sched (init_system cs)))
           = (holders (run sched (init_system cs)) \<noteq> [])
       \<and> length (holders (run sched (init_system cs))) \<le> 1
       \<and> list_all (at_head_or_releasing (globals (run sched (init_system cs))))
            (holders (run sched (init_system cs)))"
proof -
  have "inv (run sched (init_system cs))" "excl (run sched (init_system cs))"
    using excl_run [OF assms(1) inv_init excl_init [OF assms(2)]] by simp_all
  then show ?thesis
    using excl_holders by blast
qed

theorem single_holder_witness:
  "uninterrupted [0, 0, 0, 0, 0, 1, 1, 1, 1, 1, 0, 0, 0, 1] two_calls
   \<and> list_all (\<lambda>c. \<not> leaks c) [Raises, Raises]
   \<and> GPU_DEVICE_BUSY (globals (run [0, 0, 0, 0, 0, 1, 1, 1, 1, 1, 0, 0, 0, 1] two_calls))
   \<and> map pc (holders (run [0, 0, 0, 0, 0, 1, 1, 1, 1, 1, 0, 0, 0, 1] two_calls)) = [L70]
   \<and> list_all
        (at_head_or_releasing (globals (run [0, 0, 0, 0, 0, 1, 1, 1, 1, 1, 0, 0, 0, 1] two_calls)))
        (holders (run [0, 0, 0, 0, 0, 1, 1, 1, 1, 1, 0, 0, 0, 1] two_calls))"
proof -
  have h: "uninterrupted [0, 0, 0, 0, 0, 1, 1, 1, 1, 1, 0, 0, 0, 1] (init_system [Raises, Raises])"
    by (simp add: fresh_def testing_def sys_simps)
  have s: "list_all (\<lambda>c. \<not> leaks c) [Raises, Raises]"
    by (simp add: leaks_def)
  have p: "map pc (holders (run [0, 0, 0, 0, 0, 1, 1, 1, 1, 1, 0, 0, 0, 1] two_calls)) = [L70]"
    by (simp add: two_calls_def holders_def holds_def sys_simps)
  note t = single_holder [OF h s, folded two_calls_def]
  have h': "uninterrupted [0, 0, 0, 0, 0, 1, 1, 1, 1, 1, 0, 0, 0, 1] two_calls"
    using h by (simp only: two_calls_def)
  have b: "GPU_DEVICE_BUSY (globals (run [0, 0, 0, 0, 0, 1, 1, 1, 1, 1, 0, 0, 0, 1] two_calls))"
    using t p by auto
  show ?thesis
    using h' s b p t by blast
qed

subsection \<open>Replies\<close>











subsection \<open>Failure replies\<close>




end
